theory Spec2Isabelle
  imports Main "HOL-Library.Word"
begin

section \<open>JavaScript strings\<close>

text \<open>
  Strings read from the DOM, URLs and script bodies are lists of 8-bit characters (the
  Latin-1 range of JavaScript's code units). The raw markup of a document keeps full
  16-bit code units, because the code tests it for the byte-order mark U+FEFF.
\<close>

type_synonym markup = "16 word list"

text \<open>\<^verbatim>\<open>x || d\<close> for a value that is a string or undefined: the empty string is falsy.\<close>

definition orElse :: "string option \<Rightarrow> string \<Rightarrow> string" where
  "orElse x d = (case x of None \<Rightarrow> d | Some s \<Rightarrow> if s = [] then d else s)"

definition startsWith :: "string \<Rightarrow> string \<Rightarrow> bool" where
  "startsWith s p = (take (length p) s = p)"

definition endsWith :: "string \<Rightarrow> string \<Rightarrow> bool" where
  "endsWith s p = (length p \<le> length s \<and> drop (length s - length p) s = p)"

fun str_includes :: "string \<Rightarrow> string \<Rightarrow> bool" where
  "str_includes [] p = (p = [])"
| "str_includes (c # s) p = (startsWith (c # s) p \<or> str_includes s p)"

text \<open>\<^verbatim>\<open>s.lastIndexOf(c) + 1\<close>: the length of the prefix that ends with the last \<open>c\<close>,
  0 when \<open>c\<close> does not occur (lastIndexOf is -1 then).\<close>

fun lastIndexOf_plus1 :: "string \<Rightarrow> char \<Rightarrow> nat" where
  "lastIndexOf_plus1 [] c = 0"
| "lastIndexOf_plus1 (x # s) c =
     (let r = lastIndexOf_plus1 s c in
      if r = 0 then (if x = c then 1 else 0) else Suc r)"

text \<open>\<^verbatim>\<open>s.split(sep)\<close> for a one-character separator: at least one field.\<close>

fun split :: "char \<Rightarrow> string \<Rightarrow> string list" where
  "split sep [] = [[]]"
| "split sep (c # s) =
     (case split sep s of
        [] \<Rightarrow> [[]]
      | f # fs \<Rightarrow> if c = sep then [] # f # fs else (c # f) # fs)"

text \<open>\<^verbatim>\<open>a[i]\<close> on an array: undefined out of range.\<close>

definition at_index :: "'a list \<Rightarrow> nat \<Rightarrow> 'a option" where
  "at_index xs i = (if i < length xs then Some (xs ! i) else None)"

text \<open>White space and line terminators of ECMAScript, within Latin-1.\<close>

definition isSpace :: "char \<Rightarrow> bool" where
  "isSpace c = (of_char c \<in> {9, 10, 11, 12, 13, 32, 160 :: nat})"

definition trim :: "string \<Rightarrow> string" where
  "trim s = rev (dropWhile isSpace (rev (dropWhile isSpace s)))"

definition lowerChar :: "char \<Rightarrow> char" where
  "lowerChar c =
     (let n = (of_char c :: nat) in
      if (65 \<le> n \<and> n \<le> 90) \<or> (192 \<le> n \<and> n \<le> 222 \<and> n \<noteq> 215)
      then char_of (n + 32) else c)"

definition toLowerCase :: "string \<Rightarrow> string" where
  "toLowerCase s = map lowerChar s"

section \<open>Regular expressions\<close>

text \<open>
  The regular expressions of \<^verbatim>\<open>util.js\<close> are sequences of literals, character classes,
  quantified character classes and the end anchor. \<open>LitI\<close> is a literal under the flag
  \<^verbatim>\<open>i\<close>, which folds the letters a to z only: no other Latin-1 character folds to an
  ASCII letter. \<open>Rep P n greedy\<close> is the class \<open>P\<close> repeated \<open>n\<close> times or more:
  \<^verbatim>\<open>*\<close> is \<open>Rep P 0 True\<close>, \<^verbatim>\<open>+\<close> is \<open>Rep P 1 True\<close>, \<^verbatim>\<open>+?\<close> is \<open>Rep P 1 False\<close>.
\<close>

definition upperChar :: "char \<Rightarrow> char" where
  "upperChar c =
     (let n = (of_char c :: nat) in if 97 \<le> n \<and> n \<le> 122 then char_of (n - 32) else c)"

datatype atom =
    Lit string
  | LitI string
  | Cls "char \<Rightarrow> bool"
  | Rep "char \<Rightarrow> bool" nat bool
  | Eol

text \<open>The backtracking matcher at one position: what is left of the input after each
  way to match, in the order in which the engine tries them.\<close>

fun matches :: "atom list \<Rightarrow> string \<Rightarrow> string list" where
  "matches [] s = [s]"
| "matches (Lit l # as) s =
     (if startsWith s l then matches as (drop (length l) s) else [])"
| "matches (LitI l # as) s =
     (if length l \<le> length s \<and> map upperChar (take (length l) s) = map upperChar l
      then matches as (drop (length l) s) else [])"
| "matches (Cls P # as) s =
     (case s of [] \<Rightarrow> [] | c # t \<Rightarrow> if P c then matches as t else [])"
| "matches (Rep P n greedy # as) s =
     (let m = length (takeWhile P s);
          ks = [n ..< Suc m]
      in concat (map (\<lambda>k. matches as (drop k s)) (if greedy then rev ks else ks)))"
| "matches (Eol # as) s = (if s = [] then matches as s else [])"

definition matchAt :: "atom list \<Rightarrow> string \<Rightarrow> string option" where
  "matchAt rx s = (case matches rx s of [] \<Rightarrow> None | r # rs \<Rightarrow> Some r)"

text \<open>The leftmost match: the input before it and the input after it.\<close>

fun search :: "atom list \<Rightarrow> string \<Rightarrow> (string \<times> string) option" where
  "search rx [] = map_option (Pair []) (matchAt rx [])"
| "search rx (c # s) =
     (case matchAt rx (c # s) of
        Some r \<Rightarrow> Some ([], r)
      | None \<Rightarrow> map_option (\<lambda>(p, r). (c # p, r)) (search rx s))"

text \<open>\<^verbatim>\<open>rx.test(s)\<close>; with a leading \<^verbatim>\<open>^\<close> the match is tried at the start only.\<close>

definition regex_test :: "atom list \<Rightarrow> string \<Rightarrow> bool" where
  "regex_test rx s = (search rx s \<noteq> None)"

definition regex_test_at_start :: "atom list \<Rightarrow> string \<Rightarrow> bool" where
  "regex_test_at_start rx s = (matchAt rx s \<noteq> None)"

text \<open>\<^verbatim>\<open>s.replace(rx, rep)\<close> without the flag \<^verbatim>\<open>g\<close>, for a replacement without \<^verbatim>\<open>$\<close>.\<close>

definition replace :: "atom list \<Rightarrow> string \<Rightarrow> string \<Rightarrow> string" where
  "replace rx rep s = (case search rx s of None \<Rightarrow> s | Some (p, r) \<Rightarrow> p @ rep @ r)"

text \<open>\<^verbatim>\<open>s.replace(rx, '$1')\<close> for an expression made of a group and a tail: the leftmost
  match is replaced by what its group matched. A way to match is the input left after the
  group and the input left after the tail.\<close>

definition matches2 :: "atom list \<Rightarrow> atom list \<Rightarrow> string \<Rightarrow> (string \<times> string) list" where
  "matches2 grp tail s = concat (map (\<lambda>r1. map (Pair r1) (matches tail r1)) (matches grp s))"

fun replaceByGroup :: "atom list \<Rightarrow> atom list \<Rightarrow> string \<Rightarrow> string" where
  "replaceByGroup grp tail [] = []"
| "replaceByGroup grp tail (c # s) =
     (case matches2 grp tail (c # s) of
        (r1, r2) # rs \<Rightarrow> take (length (c # s) - length r1) (c # s) @ r2
      | [] \<Rightarrow> c # replaceByGroup grp tail s)"

text \<open>\<^verbatim>\<open>s.replace(/pat/g, rep)\<close> for a literal, non-empty \<open>pat\<close>.\<close>

function replaceAll :: "string \<Rightarrow> string \<Rightarrow> string \<Rightarrow> string" where
  "replaceAll pat rep [] = []"
| "replaceAll pat rep (c # s) =
     (if pat \<noteq> [] \<and> startsWith (c # s) pat
      then rep @ replaceAll pat rep (drop (length pat) (c # s))
      else c # replaceAll pat rep s)"
  by pat_completeness auto
termination
  by (relation "measure (\<lambda>(pat, rep, s). length s)") auto

section \<open>Promises, windows and the outside world\<close>

datatype error = Error string

text \<open>The fate of a promise; \<open>Pending\<close> is a promise that never settles.\<close>

datatype 'a promise = Fulfilled 'a | Rejected error | Pending

text \<open>A hook of \<^verbatim>\<open>respecConfig.postProcess\<close>: one the document brought, or the one that
  \<^verbatim>\<open>getDocumentAndGenerator\<close> pushes.\<close>

datatype hook = DocumentHook nat | GeneratorHook

record respecConfig =
  postProcess :: "hook list option"

record anchor =
  textContent :: string
  href_attr :: string

text \<open>
  A window as the code observes it. Each field is the result of one DOM read of
  \<^verbatim>\<open>util.js\<close>:
  \<^item> \<open>respecConfig\<close>: \<^verbatim>\<open>window.respecConfig\<close> (\<open>None\<close> when falsy);
  \<^item> \<open>respecScript\<close>: \<^verbatim>\<open>document.head.querySelector("script[src*='respec']")\<close> is not null;
  \<^item> \<open>respecIsReady t\<close>: \<^verbatim>\<open>document.respecIsReady\<close> as read \<open>t\<close> ms after the \<^verbatim>\<open>load\<close>
    event: \<open>None\<close> while falsy, else the fate of that promise;
  \<^item> \<open>metaGenerator\<close>: \<^verbatim>\<open>querySelector("meta[name='generator']")\<close>, as the \<^verbatim>\<open>content\<close>
    property of the element found;
  \<^item> \<open>bodyId\<close>: \<^verbatim>\<open>doc.body.id\<close>;
  \<^item> \<open>anolisReferences\<close>: \<^verbatim>\<open>doc.getElementById('anolis-references')\<close> is not null;
  \<^item> \<open>metaRefresh\<close>: \<^verbatim>\<open>doc.querySelector('meta[http-equiv="refresh"]')\<close>, as the result of
    \<^verbatim>\<open>getAttribute('content')\<close> on the element found;
  \<^item> \<open>baseURI\<close>: \<^verbatim>\<open>doc.baseURI\<close>;
  \<^item> \<open>headLinks\<close>: \<^verbatim>\<open>doc.querySelectorAll('body .head dl a[href]')\<close>, in document order;
  \<^item> \<open>bodyText\<close>: the text content of the document (not read by the code).
\<close>

datatype ready = ReadyFulfilled | ReadyRejected error | ReadyPending

record window =
  respecConfig :: "respecConfig option"
  respecScript :: bool
  respecIsReady :: "nat \<Rightarrow> ready option"
  metaGenerator :: "string option"
  bodyId :: string
  anolisReferences :: bool
  metaRefresh :: "string option option"
  baseURI :: string
  headLinks :: "anchor list"
  bodyText :: markup

record response =
  response_url :: string
  response_text :: markup

text \<open>
  What the code calls and does not define: \<^verbatim>\<open>fetch\<close> (with \<^verbatim>\<open>response.text()\<close>),
  the \<^verbatim>\<open>JSDOM\<close> constructor up to the window's \<^verbatim>\<open>load\<close> event (\<open>Rejected\<close>
  when it throws, \<open>Pending\<close> when the event never comes), and Node's \<^verbatim>\<open>URL.resolve\<close>.
\<close>

record world =
  fetch :: "string option \<Rightarrow> response promise"
  jsdom :: "markup \<Rightarrow> string \<Rightarrow> window promise"
  URL_resolve :: "string \<Rightarrow> string \<Rightarrow> string"

text \<open>The argument of \<^verbatim>\<open>loadSpecificationFromHtml\<close>: every property may be missing.\<close>

record spec =
  url :: "string option"
  html :: "markup option"
  responseUrl :: "string option"

section \<open>Loading a specification\<close>

definition usesRespec :: "window \<Rightarrow> bool" where
  "usesRespec window = (respecConfig window \<noteq> None \<and> respecScript window)"

text \<open>
  \<^verbatim>\<open>resolveWhenReady\<close> (util.js 200-213), run \<open>t\<close> ms after the \<^verbatim>\<open>load\<close> event: while
  \<^verbatim>\<open>document.respecIsReady\<close> is missing in a ReSpec document it runs again through
  \<^verbatim>\<open>setTimeout(resolveWhenReady, 100)\<close>, without a bound. Time is the time of the timers.
  \<open>None\<close> is a poll that goes on forever, so that the promise of the loader never settles.
\<close>

partial_function (option) resolveWhenReady :: "window \<Rightarrow> nat \<Rightarrow> window promise option" where
  "resolveWhenReady window t =
     (case respecIsReady window t of
        Some r \<Rightarrow>
          Some (case r of
                  ReadyFulfilled \<Rightarrow> Fulfilled window
                | ReadyRejected e \<Rightarrow> Rejected e
                | ReadyPending \<Rightarrow> Pending)
      | None \<Rightarrow>
          if usesRespec window then resolveWhenReady window (t + 100)
          else Some (Fulfilled window))"

definition dropBOM :: "markup \<Rightarrow> markup" where
  "dropBOM h = (case h of [] \<Rightarrow> [] | c # rest \<Rightarrow> if c = 0xFEFF then rest else h)"

text \<open>The promise built in \<^verbatim>\<open>loadSpecificationFromHtml\<close> (util.js 186-306).\<close>

definition loadPromise :: "world \<Rightarrow> markup \<Rightarrow> string \<Rightarrow> window promise" where
  "loadPromise W html0 responseUrl' =
     (let html' = dropBOM html0 in
      case jsdom W html' responseUrl' of
        Rejected e \<Rightarrow> Rejected e
      | Pending \<Rightarrow> Pending
      | Fulfilled window \<Rightarrow>
          (case resolveWhenReady window 0 of None \<Rightarrow> Pending | Some p \<Rightarrow> p))"

text \<open>What the callback of \<^verbatim>\<open>promise.then\<close> (util.js 308-344) returns: the window, or
  the call \<^verbatim>\<open>loadSpecificationFromUrl(target, counter)\<close>.\<close>

datatype action = Return window | LoadFromUrl string nat

definition isSinglePageText :: "string \<Rightarrow> bool" where
  "isSinglePageText text =
     (str_includes text ''single page'' \<or> str_includes text ''single file'' \<or>
      str_includes text ''single-page'' \<or> str_includes text ''one-page'')"

fun linksLoop :: "world \<Rightarrow> string \<Rightarrow> string \<Rightarrow> nat \<Rightarrow> window \<Rightarrow> anchor list \<Rightarrow> action" where
  "linksLoop W url' responseUrl' counter window [] = Return window"
| "linksLoop W url' responseUrl' counter window (link # links) =
     (let text = toLowerCase (textContent link) in
      if isSinglePageText text then
        (let singlePage = URL_resolve W (baseURI window) (href_attr link) in
         if singlePage = url' \<or> singlePage = responseUrl' then Return window
         else LoadFromUrl singlePage (counter + 1))
      else linksLoop W url' responseUrl' counter window links)"

text \<open>The target of the meta refresh when the code follows it (util.js 313-322).\<close>

definition metaRefreshTarget :: "world \<Rightarrow> string \<Rightarrow> string \<Rightarrow> window \<Rightarrow> string option" where
  "metaRefreshTarget W url' responseUrl' window =
     (case metaRefresh window of
        None \<Rightarrow> None
      | Some content \<Rightarrow>
          (case at_index (split CHR '';'' (orElse content [])) 1 of
             None \<Rightarrow> None
           | Some redirectUrl \<Rightarrow>
               if redirectUrl = [] then None
               else
                 (let redirectUrl' = URL_resolve W (baseURI window) (trim redirectUrl) in
                  if redirectUrl' \<noteq> url' \<and> redirectUrl' \<noteq> responseUrl' then Some redirectUrl'
                  else None)))"

definition onLoaded :: "world \<Rightarrow> string \<Rightarrow> string \<Rightarrow> nat \<Rightarrow> window \<Rightarrow> action" where
  "onLoaded W url' responseUrl' counter window =
     (case metaRefreshTarget W url' responseUrl' window of
        Some redirectUrl \<Rightarrow> LoadFromUrl redirectUrl (counter + 1)
      | None \<Rightarrow> linksLoop W url' responseUrl' counter window (headLinks window))"

text \<open>\<^verbatim>\<open>counter || 0\<close>.\<close>

definition counterOr0 :: "nat option \<Rightarrow> nat" where
  "counterOr0 counter = (case counter of None \<Rightarrow> 0 | Some c \<Rightarrow> c)"

text \<open>The result of a load: the fate of the promise, and the calls of \<^verbatim>\<open>fetch\<close> made on the
  way, each with the counter of the call of \<^verbatim>\<open>loadSpecificationFromUrl\<close> that made it.\<close>

type_synonym outcome = "window promise \<times> (string option \<times> nat) list"

lemma linksLoop_counter:
  "linksLoop W u r counter window links = LoadFromUrl t c \<Longrightarrow> c = counter + 1"
  by (induction links) (auto simp: Let_def split: if_splits)

lemma onLoaded_counter:
  "onLoaded W u r counter window = LoadFromUrl t c \<Longrightarrow> c = counter + 1"
  by (auto simp: onLoaded_def split: option.splits dest: linksLoop_counter)

function loadSpecificationFromHtml :: "world \<Rightarrow> spec \<Rightarrow> nat option \<Rightarrow> outcome"
  and loadSpecificationFromUrl :: "world \<Rightarrow> string option \<Rightarrow> nat option \<Rightarrow> outcome"
where
  "loadSpecificationFromHtml W spec counter0 =
     (let url' = orElse (url spec) ''about:blank'';
          responseUrl' = orElse (responseUrl spec) url';
          html' = (case html spec of None \<Rightarrow> [] | Some h \<Rightarrow> h);
          counter = counterOr0 counter0
      in case loadPromise W html' responseUrl' of
           Rejected e \<Rightarrow> (Rejected e, [])
         | Pending \<Rightarrow> (Pending, [])
         | Fulfilled window \<Rightarrow>
             (case onLoaded W url' responseUrl' counter window of
                Return w \<Rightarrow> (Fulfilled w, [])
              | LoadFromUrl target c \<Rightarrow> loadSpecificationFromUrl W (Some target) (Some c)))"
| "loadSpecificationFromUrl W url0 counter0 =
     (let counter = counterOr0 counter0 in
      if counter \<ge> 5 then (Rejected (Error ''Infinite loop detected''), [])
      else
        case fetch W url0 of
          Rejected e \<Rightarrow> (Rejected e, [(url0, counter)])
        | Pending \<Rightarrow> (Pending, [(url0, counter)])
        | Fulfilled response \<Rightarrow>
            (let r = loadSpecificationFromHtml W
                       \<lparr>url = url0, html = Some (response_text response),
                        responseUrl = Some (response_url response)\<rparr>
                       (Some counter)
             in (fst r, (url0, counter) # snd r)))"
  by pat_completeness auto
termination
proof (relation "measure (\<lambda>x. case x of
          Inl (W, spec, c) \<Rightarrow> 2 * (6 - counterOr0 c) + 1
        | Inr (W, u, c) \<Rightarrow> 2 * (7 - counterOr0 c))", goal_cases)
  case 1
  show ?case by simp
next
  case (2 W spec counter0 url' responseUrl' html' counter window target c)
  from 2 have "c = counter + 1" by (auto dest: onLoaded_counter)
  with 2 show ?case by (simp add: counterOr0_def)
next
  case (3 W url0 counter0 counter response)
  then show ?case by (simp add: counterOr0_def)
qed

text \<open>The argument of \<^verbatim>\<open>loadSpecification\<close>: a URL, or an object.\<close>

datatype request = Url string | Obj spec

definition loadSpecification :: "world \<Rightarrow> request \<Rightarrow> outcome" where
  "loadSpecification W req =
     (let spec = (case req of
                    Url s \<Rightarrow> \<lparr>url = Some s, html = None, responseUrl = None\<rparr>
                  | Obj spec \<Rightarrow> spec)
      in if (case html spec of None \<Rightarrow> False | Some h \<Rightarrow> h \<noteq> [])
         then loadSpecificationFromHtml W spec None
         else loadSpecificationFromUrl W (url spec) None)"

section \<open>The generator of a document\<close>

record docAndGenerator =
  doc :: window
  generator :: "string option"

text \<open>
  The state that a call of \<^verbatim>\<open>getDocumentAndGenerator\<close> leaves behind: the promise it
  returned, the timer it set (its delay in milliseconds; \<open>None\<close> when there is none or it
  was cleared), the window with the hook pushed on \<^verbatim>\<open>respecConfig.postProcess\<close>, and the
  document that the hook resolves with.
\<close>

record generatorState =
  promise :: "docAndGenerator promise"
  timer :: "nat option"
  win :: window
  docVar :: window

definition bikeshed_rx :: "atom list" where
  "bikeshed_rx = [LitI ''bikeshed'']"

definition timeoutError :: error where
  "timeoutError = Error ''Specification apparently uses ReSpec but document generation timed out''"

text \<open>\<^verbatim>\<open>resolve({doc, generator})\<close> during the call; \<^verbatim>\<open>resolve({doc})\<close> has no generator.\<close>

definition resolved :: "window \<Rightarrow> string option \<Rightarrow> generatorState" where
  "resolved window g =
     \<lparr>promise = Fulfilled \<lparr>doc = window, generator = g\<rparr>, timer = None, win = window,
      docVar = window\<rparr>"

definition getDocumentAndGenerator :: "window \<Rightarrow> generatorState" where
  "getDocumentAndGenerator window =
     (if (case metaGenerator window of
            None \<Rightarrow> False
          | Some content \<Rightarrow> regex_test bikeshed_rx content)
      then resolved window (Some ''bikeshed'')
      else if bodyId window = ''respecDocument''
      then resolved window (Some ''respec'')
      else
        case (if respecScript window then respecConfig window else None) of
          Some config \<Rightarrow>
            (let hooks = (case postProcess config of None \<Rightarrow> [] | Some hs \<Rightarrow> hs)
             in \<lparr>promise = Pending, timer = Some 30000,
                 win = window\<lparr>respecConfig :=
                         Some (config\<lparr>postProcess := Some (hooks @ [GeneratorHook])\<rparr>)\<rparr>,
                 docVar = window\<rparr>)
        | None \<Rightarrow>
            if anolisReferences window
            then resolved window (Some ''anolis'')
            else resolved window None)"

text \<open>Calling \<^verbatim>\<open>resolve\<close> or \<^verbatim>\<open>reject\<close>: a promise settles once.\<close>

definition settle :: "'a promise \<Rightarrow> 'a promise \<Rightarrow> 'a promise" where
  "settle p v = (case p of Pending \<Rightarrow> v | _ \<Rightarrow> p)"

text \<open>The hook pushed on \<^verbatim>\<open>postProcess\<close> runs (util.js 430-435).\<close>

definition hookFires :: "generatorState \<Rightarrow> generatorState" where
  "hookFires st =
     st\<lparr>timer := None,
        promise := settle (promise st) (Fulfilled \<lparr>doc = docVar st, generator = Some ''respec''\<rparr>)\<rparr>"

text \<open>The timer runs out (util.js 436-438); a cleared timer does nothing.\<close>

definition timerFires :: "generatorState \<Rightarrow> generatorState" where
  "timerFires st =
     (case timer st of
        None \<Rightarrow> st
      | Some delay \<Rightarrow> st\<lparr>timer := None, promise := settle (promise st) (Rejected timeoutError)\<rparr>)"

text \<open>
  When and how the promise settles, given the time in milliseconds after the call at
  which the engine runs the hooks of \<^verbatim>\<open>postProcess\<close> (\<open>None\<close>: it never does). A hook
  that runs at the very millisecond of the timer comes after the timer.
\<close>

definition settlesAt :: "generatorState \<Rightarrow> nat option \<Rightarrow> nat \<times> docAndGenerator promise" where
  "settlesAt st hookTime =
     (case timer st of
        None \<Rightarrow> (0, promise st)
      | Some delay \<Rightarrow>
          (case hookTime of
             None \<Rightarrow> (delay, promise (timerFires st))
           | Some t \<Rightarrow>
               if t < delay then (t, promise (hookFires st))
               else (delay, promise (hookFires (timerFires st)))))"

section \<open>The resource loader\<close>

text \<open>The URL object that JSDOM hands to \<^verbatim>\<open>resourceLoader.download\<close>, as far as the code
  reads it.\<close>

record urlObject =
  href :: string
  path :: string
  pathname :: string

definition respecUrl :: string where
  "respecUrl = ''https://www.w3.org/Tools/respec/respec-w3c-common''"

definition respec_rx :: "atom list" where
  "respec_rx = [LitI ''/respec'', Cls (\<lambda>c. c = CHR ''/'' \<or> c = CHR ''-'')]"

definition extension_rx :: "atom list" where
  "extension_rx = [Lit ''.'', Rep (\<lambda>c. c \<noteq> CHR ''/'' \<and> c \<noteq> CHR ''.'') 1 True, Eol]"

definition denied :: "string \<Rightarrow> bool" where
  "denied p =
     (regex_test [LitI ''annotate_spec''] p \<or> regex_test [LitI ''expanders''] p \<or>
      regex_test [LitI ''bug-assist''] p \<or> regex_test [LitI ''dfn''] p \<or>
      regex_test [LitI ''section-links''] p \<or> regex_test_at_start [LitI ''/webidl/''] p)"

definition referrerDirectory :: "string \<Rightarrow> string" where
  "referrerDirectory referrer =
     (if \<not> endsWith referrer ''/'' then take (lastIndexOf_plus1 referrer CHR ''/'') referrer
      else referrer)"

definition getUrlToFetch :: "urlObject \<Rightarrow> string \<Rightarrow> string option" where
  "getUrlToFetch u referrer0 =
     (let referrer = referrerDirectory referrer0 in
      if regex_test respec_rx (path u) then Some respecUrl
      else if regex_test extension_rx (path u) \<and> \<not> endsWith (path u) ''.js''
                \<and> \<not> endsWith (path u) ''.json''
      then None
      else if pathname u = ''/webcomponents/assets/scripts/autolink.js'' \<or>
              (startsWith (href u) referrer \<and> \<not> denied (pathname u))
      then Some (href u)
      else None)"

text \<open>The five patches that let ReSpec run in JSDOM (util.js 132-152).\<close>

definition highlight_group :: "atom list" where
  \<open>highlight_group =
     [Lit ''define('', Rep isSpace 0 True, Lit ''"profile-w3c-common"'', Rep isSpace 0 True,
      Lit '','', Rep isSpace 0 True, Lit ''['', Rep (\<lambda>c. c \<noteq> CHR '']'') 1 True]\<close>

definition highlight_tail :: "atom list" where
  \<open>highlight_tail = [Lit '','', Rep isSpace 0 True, Lit ''"core/highlight"'']\<close>

definition keyframes_rx :: "atom list" where
  "keyframes_rx = [Lit ''@keyframes '', Rep (\<lambda>c. \<not> isSpace c) 1 False, Lit '' {'']"

definition isLineTerminator :: "char \<Rightarrow> bool" where
  "isLineTerminator c = (of_char c \<in> {10, 13 :: nat})"

definition supports_rx :: "atom list" where
  "supports_rx = [Lit ''@supports ('', Rep (\<lambda>c. \<not> isLineTerminator c) 1 False, Lit '') {'']"

definition tweakRespec :: "string \<Rightarrow> string" where
  "tweakRespec data0 =
     (let data1 = replaceByGroup highlight_group highlight_tail data0;
          data2 = replace keyframes_rx ''@media all {'' data1;
          data3 = replace supports_rx ''@media all {'' data2;
          data4 = replaceAll ''.innerText='' ''.textContent='' data3
      in replaceAll ''body.innerText'' ''body.textContent'' data4)"

text \<open>What the callback of \<^verbatim>\<open>download\<close> receives: \<^verbatim>\<open>callback(null, data)\<close>,
  \<^verbatim>\<open>callback(err)\<close>, or no call when the fetch never settles.\<close>

datatype delivery = Data string | Failure error | NoCallback

text \<open>\<^verbatim>\<open>resourceLoader.download\<close> (util.js 85-156), given the text that \<^verbatim>\<open>fetch\<close> gets for
  a URL: what the callback receives, and the URLs fetched.\<close>

definition download :: "(string \<Rightarrow> string promise) \<Rightarrow> urlObject \<Rightarrow> string \<Rightarrow> delivery \<times> string list" where
  "download fetchText u referrer0 =
     (case getUrlToFetch u referrer0 of
        None \<Rightarrow> (Data [], [])
      | Some urlToFetch \<Rightarrow>
          if urlToFetch = [] then (Data [], [])
          else
            (case fetchText urlToFetch of
               Fulfilled data \<Rightarrow>
                 (Data (if urlToFetch \<noteq> respecUrl then data else tweakRespec data), [urlToFetch])
             | Rejected err \<Rightarrow> (Failure err, [urlToFetch])
             | Pending \<Rightarrow> (NoCallback, [urlToFetch])))"

section \<open>Notions used to state the properties\<close>

text \<open>How a load goes on after the callback of \<^verbatim>\<open>promise.then\<close> has returned.\<close>

definition continueWith :: "world \<Rightarrow> action \<Rightarrow> outcome" where
  "continueWith W a =
     (case a of
        Return w \<Rightarrow> (Fulfilled w, [])
      | LoadFromUrl target c \<Rightarrow> loadSpecificationFromUrl W (Some target) (Some c))"

text \<open>The page behind a URL: what \<^verbatim>\<open>loadSpecificationFromUrl\<close> hands to the callback when
  the fetch and the load both succeed (the requested URL, the response URL, the window).\<close>

definition pageAt :: "world \<Rightarrow> string \<Rightarrow> (string \<times> string \<times> window) option" where
  "pageAt W u =
     (case fetch W (Some u) of
        Fulfilled r \<Rightarrow>
          (let url' = orElse (Some u) ''about:blank'';
               responseUrl' = orElse (Some (response_url r)) url'
           in case loadPromise W (response_text r) responseUrl' of
                Fulfilled window \<Rightarrow> Some (url', responseUrl', window)
              | _ \<Rightarrow> None)
      | _ \<Rightarrow> None)"

text \<open>The page at \<open>u\<close> redirects to \<open>v\<close> by a meta refresh that the code follows.\<close>

definition refreshHop :: "world \<Rightarrow> string \<Rightarrow> string \<Rightarrow> bool" where
  "refreshHop W u v =
     (case pageAt W u of
        Some (url', responseUrl', window) \<Rightarrow>
          metaRefreshTarget W url' responseUrl' window = Some v
      | None \<Rightarrow> False)"

text \<open>The page at \<open>u\<close> has no further redirect: the callback returns its window.\<close>

definition finalPage :: "world \<Rightarrow> string \<Rightarrow> window option" where
  "finalPage W u =
     (case pageAt W u of
        Some (url', responseUrl', window) \<Rightarrow>
          (case onLoaded W url' responseUrl' 0 window of
             Return w \<Rightarrow> Some w
           | LoadFromUrl t c \<Rightarrow> None)
      | None \<Rightarrow> None)"

text \<open>A forward chain of meta refreshes through the listed URLs; its value is the window
  of the last one. A chain of length \<open>n\<close> lists \<open>n + 1\<close> URLs.\<close>

fun chainEnd :: "world \<Rightarrow> string list \<Rightarrow> window option" where
  "chainEnd W [] = None"
| "chainEnd W [u] = finalPage W u"
| "chainEnd W (u # v # rest) = (if refreshHop W u v then chainEnd W (v # rest) else None)"

text \<open>The values \<^verbatim>\<open>loadSpecificationFromHtml\<close> works with: its \<^verbatim>\<open>url\<close>,
  \<^verbatim>\<open>responseUrl\<close> and \<^verbatim>\<open>html\<close> after the defaults.\<close>

definition urlOf :: "spec \<Rightarrow> string" where
  "urlOf spec = orElse (url spec) ''about:blank''"

definition responseUrlOf :: "spec \<Rightarrow> string" where
  "responseUrlOf spec = orElse (responseUrl spec) (urlOf spec)"

definition htmlOf :: "spec \<Rightarrow> markup" where
  "htmlOf spec = (case html spec of None \<Rightarrow> [] | Some h \<Rightarrow> h)"

text \<open>The test the loop over the links applies to each link.\<close>

definition isSinglePageLink :: "anchor \<Rightarrow> bool" where
  "isSinglePageLink link = isSinglePageText (toLowerCase (textContent link))"

text \<open>The first test of \<^verbatim>\<open>getDocumentAndGenerator\<close>.\<close>

definition isBikeshed :: "window \<Rightarrow> bool" where
  "isBikeshed window =
     (case metaGenerator window of None \<Rightarrow> False | Some content \<Rightarrow> regex_test bikeshed_rx content)"

definition fate :: "window \<Rightarrow> ready \<Rightarrow> window promise" where
  "fate w r = (case r of ReadyFulfilled \<Rightarrow> Fulfilled w | ReadyRejected e \<Rightarrow> Rejected e
             | ReadyPending \<Rightarrow> Pending)"

text \<open>The polls that start \<open>t\<close> ms after the \<^verbatim>\<open>load\<close> event, 100 ms apart, find
  \<^verbatim>\<open>document.respecIsReady\<close> at some poll and not before, and \<open>p\<close> is the fate of that
  promise.\<close>

definition readyAfter :: "window \<Rightarrow> nat \<Rightarrow> window promise \<Rightarrow> bool" where
  "readyAfter w t p \<longleftrightarrow>
     (\<exists>n r. respecIsReady w (t + 100 * n) = Some r \<and>
        (\<forall>j<n. respecIsReady w (t + 100 * j) = None) \<and> p = fate w r)"




text \<open>The two names in the expression that removes the highlight module.\<close>

definition profileName :: string where
  \<open>profileName = ''"profile-w3c-common"''\<close>

definition highlightName :: string where
  \<open>highlightName = ''"core/highlight"''\<close>

section \<open>Sample documents and networks\<close>

text \<open>A static document with nothing in it.\<close>

definition plainWindow :: "string \<Rightarrow> window" where
  "plainWindow base =
     \<lparr>respecConfig = None, respecScript = False, respecIsReady = (\<lambda>t. None),
      metaGenerator = None, bodyId = [], anolisReferences = False, metaRefresh = None,
      baseURI = base, headLinks = [], bodyText = []\<rparr>"

fun successor :: "string list \<Rightarrow> string \<Rightarrow> string option" where
  "successor (a # b # rest) u = (if u = a then Some b else successor (b # rest) u)"
| "successor _ u = None"

text \<open>A network in which every URL of the chain answers with a page whose meta refresh
  names the next URL of the chain; the last page has none. \<^verbatim>\<open>URL.resolve\<close> is needed
  on absolute URLs and on the empty reference only.\<close>

definition chainWorld :: "string list \<Rightarrow> world" where
  "chainWorld chain =
     \<lparr>fetch = (\<lambda>u. case u of
                  None \<Rightarrow> Rejected (Error ''fetch failed'')
                | Some a \<Rightarrow> Fulfilled \<lparr>response_url = a, response_text = []\<rparr>),
      jsdom = (\<lambda>h r. Fulfilled ((plainWindow r)
                 \<lparr>metaRefresh := map_option (\<lambda>n. Some (''0; '' @ n)) (successor chain r)\<rparr>)),
      URL_resolve = (\<lambda>base rel. if rel = [] then base else rel)\<rparr>"

definition chain4 :: "string list" where
  "chain4 = [''http://s.test/a'', ''http://s.test/b'', ''http://s.test/c'', ''http://s.test/d'']"

definition chain7 :: "string list" where
  "chain7 = [''http://s.test/a'', ''http://s.test/b'', ''http://s.test/c'', ''http://s.test/d'',
             ''http://s.test/e'', ''http://s.test/f'', ''http://s.test/g'']"

text \<open>A network in which every fetch succeeds without a redirection and the document
  depends on the response URL alone.\<close>

definition siteWorld :: "(string \<Rightarrow> window) \<Rightarrow> world" where
  "siteWorld site =
     \<lparr>fetch = (\<lambda>u. case u of
                  None \<Rightarrow> Rejected (Error ''fetch failed'')
                | Some a \<Rightarrow> Fulfilled \<lparr>response_url = a, response_text = []\<rparr>),
      jsdom = (\<lambda>h r. Fulfilled (site r)),
      URL_resolve = (\<lambda>base rel. if rel = [] then base else rel)\<rparr>"

definition refreshPage :: "string \<Rightarrow> string \<Rightarrow> window" where
  "refreshPage base content = (plainWindow base)\<lparr>metaRefresh := Some (Some content)\<rparr>"

text \<open>A page with a \<^verbatim>\<open>base\<close> element, whose meta refresh has an empty second field.\<close>

definition emptyRefreshWorld :: world where
  "emptyRefreshWorld = siteWorld (\<lambda>r. refreshPage ''http://s.test/base/'' ''0;'')"

definition emptyRefreshSpec :: spec where
  "emptyRefreshSpec = \<lparr>url = Some ''http://s.test/spec'', html = Some [0x61], responseUrl = None\<rparr>"

text \<open>A multi-page edition whose header links to the single-page edition first and to
  itself second, and the single-page edition, which links to itself.\<close>

definition multiPage :: window where
  "multiPage = (plainWindow ''http://s.test/multi/'')
     \<lparr>headLinks := [\<lparr>textContent = ''Single page version'', href_attr = ''http://s.test/one.html''\<rparr>,
                    \<lparr>textContent = ''one-page per chapter'', href_attr = ''http://s.test/multi/''\<rparr>]\<rparr>"

definition onePage :: window where
  "onePage = (plainWindow ''http://s.test/one.html'')
     \<lparr>headLinks := [\<lparr>textContent = ''Single Page'', href_attr = ''http://s.test/one.html''\<rparr>]\<rparr>"

definition editionsWorld :: world where
  "editionsWorld = siteWorld (\<lambda>r. if r = ''http://s.test/multi/'' then multiPage
                                  else if r = ''http://s.test/one.html'' then onePage
                                  else plainWindow r)"

definition multiSpec :: spec where
  "multiSpec = \<lparr>url = Some ''http://s.test/multi/'', html = Some [0x61], responseUrl = None\<rparr>"

definition oneSpec :: spec where
  "oneSpec = \<lparr>url = Some ''http://s.test/one.html'', html = Some [0x61], responseUrl = None\<rparr>"

definition plainSpec :: spec where
  "plainSpec = \<lparr>url = Some ''http://s.test/d'', html = Some [0x61], responseUrl = None\<rparr>"

definition emptySpec :: spec where
  "emptySpec = \<lparr>url = Some ''http://s.test/d'', html = Some [], responseUrl = None\<rparr>"

text \<open>A parser that keeps the markup it is given as the text of the document, a
  byte-order mark included.\<close>

definition echoPage :: "markup \<Rightarrow> window" where
  "echoPage h = (plainWindow ''about:blank'')\<lparr>bodyText := h\<rparr>"

definition echoWorld :: world where
  "echoWorld =
     \<lparr>fetch = (\<lambda>u. Rejected (Error ''fetch failed'')),
      jsdom = (\<lambda>h r. Fulfilled (echoPage h)),
      URL_resolve = (\<lambda>base rel. if rel = [] then base else rel)\<rparr>"

definition rawSpec :: "markup \<Rightarrow> spec" where
  "rawSpec h = \<lparr>url = None, html = Some h, responseUrl = None\<rparr>"

text \<open>Raw markup without a URL, whose meta refresh and single-page link both name
  \<^verbatim>\<open>about:blank\<close>.\<close>

definition blankPage :: window where
  "blankPage = (refreshPage ''about:blank'' ''0; about:blank'')
     \<lparr>headLinks := [\<lparr>textContent = ''Single Page'', href_attr = ''about:blank''\<rparr>]\<rparr>"

definition blankWorld :: world where
  "blankWorld = siteWorld (\<lambda>r. blankPage)"

text \<open>Raw markup with a URL and no response URL, in a network whose every page has the URL
  it is loaded with as its base and a meta refresh that names \<^verbatim>\<open>http://s.test/spec\<close>.\<close>

definition selfRefreshWorld :: world where
  "selfRefreshWorld = siteWorld (\<lambda>r. refreshPage r ''0; http://s.test/spec'')"

definition urlOnlySpec :: spec where
  "urlOnlySpec = \<lparr>url = Some ''http://s.test/spec'', html = Some [0x61], responseUrl = None\<rparr>"

text \<open>A ReSpec source document, whose \<^verbatim>\<open>respecIsReady\<close> follows the given course (it
  comes into being \<open>t0\<close> ms after the \<^verbatim>\<open>load\<close> event, or never), and a document that
  Bikeshed produced.\<close>

definition respecSource :: "(nat \<Rightarrow> ready option) \<Rightarrow> window" where
  "respecSource ready =
     (plainWindow ''http://s.test/respec'')
       \<lparr>respecConfig := Some \<lparr>postProcess = None\<rparr>, respecScript := True, respecIsReady := ready\<rparr>"

definition readyFrom :: "nat \<Rightarrow> nat \<Rightarrow> ready option" where
  "readyFrom t0 t = (if t < t0 then None else Some ReadyFulfilled)"

definition neverReady :: "nat \<Rightarrow> ready option" where
  "neverReady t = None"

definition bikeshedPage :: window where
  "bikeshedPage = (plainWindow ''http://s.test/bs'')\<lparr>metaGenerator := Some ''Bikeshed version 1''\<rparr>"

text \<open>Requests for secondary resources, made by the page
  \<^verbatim>\<open>http://s.test/specs/index.html\<close>, and what the network serves.\<close>

definition sampleBody :: string where
  \<open>sampleBody = ''define("profile-w3c-common",["core/base","core/highlight","core/ui"],f);a{@keyframes fade {}}@supports (x:y) {}e.innerText=t;document.body.innerText;''\<close>

definition tweakedBody :: string where
  \<open>tweakedBody = ''define("profile-w3c-common",["core/base","core/ui"],f);a{@media all {}}@media all {}e.textContent=t;document.body.textContent;''\<close>

definition highlightFirst :: string where
  \<open>highlightFirst = ''define("profile-w3c-common",["core/highlight","core/ui"],f);''\<close>

definition serve :: "string \<Rightarrow> string \<Rightarrow> string promise" where
  "serve body u = Fulfilled body"

definition specReferrer :: string where
  "specReferrer = ''http://s.test/specs/index.html''"

definition respecVersioned :: urlObject where
  "respecVersioned = \<lparr>href = ''https://www.w3.org/Tools/respec/respec-w3c-common-1.0'',
     path = ''/Tools/respec/respec-w3c-common-1.0'',
     pathname = ''/Tools/respec/respec-w3c-common-1.0''\<rparr>"


definition localScript :: urlObject where
  "localScript = \<lparr>href = ''http://s.test/specs/script.js'', path = ''/specs/script.js'',
     pathname = ''/specs/script.js''\<rparr>"


definition profileSample :: string where
  \<open>profileSample = ''define("profile-w3c-common",["core/base","core/highlight","core/ui"],f);''\<close>

definition profileTweaked :: string where
  \<open>profileTweaked = ''define("profile-w3c-common",["core/base","core/ui"],f);''\<close>

definition depsSample :: string where
  \<open>depsSample = ''"core/base"''\<close>

definition postSample :: string where
  \<open>postSample = '',"core/ui"],f);''\<close>

section \<open>The loader, step by step\<close>

lemma fromHtml_unfold:
  "loadSpecificationFromHtml W spec counter0 =
     (let url' = orElse (url spec) ''about:blank'';
          responseUrl' = orElse (responseUrl spec) url'
      in case loadPromise W (case html spec of None \<Rightarrow> [] | Some h \<Rightarrow> h) responseUrl' of
           Rejected e \<Rightarrow> (Rejected e, [])
         | Pending \<Rightarrow> (Pending, [])
         | Fulfilled window \<Rightarrow>
             continueWith W (onLoaded W url' responseUrl' (counterOr0 counter0) window))"
  by (simp add: Let_def continueWith_def split: promise.splits action.splits)

declare loadSpecificationFromHtml.simps [simp del] loadSpecificationFromUrl.simps [simp del]

lemma fromUrl_unfold:
  "loadSpecificationFromUrl W (Some u) (Some c) =
     (if c \<ge> 5 then (Rejected (Error ''Infinite loop detected''), [])
      else case fetch W (Some u) of
          Rejected e \<Rightarrow> (Rejected e, [(Some u, c)])
        | Pending \<Rightarrow> (Pending, [(Some u, c)])
        | Fulfilled r \<Rightarrow>
           (let url' = orElse (Some u) ''about:blank'';
                responseUrl' = orElse (Some (response_url r)) url'
            in case loadPromise W (response_text r) responseUrl' of
                 Rejected e \<Rightarrow> (Rejected e, [(Some u, c)])
               | Pending \<Rightarrow> (Pending, [(Some u, c)])
               | Fulfilled window \<Rightarrow>
                   (let k = continueWith W (onLoaded W url' responseUrl' c window)
                    in (fst k, (Some u, c) # snd k))))"
  by (simp add: loadSpecificationFromUrl.simps fromHtml_unfold counterOr0_def Let_def
        split: promise.splits)

lemma fromUrl_no_counter:
  "loadSpecificationFromUrl W u None = loadSpecificationFromUrl W u (Some 0)"
  by (simp add: loadSpecificationFromUrl.simps counterOr0_def)

lemma resolveWhenReady_static:
  "respecIsReady w k = None \<Longrightarrow> \<not> usesRespec w \<Longrightarrow> resolveWhenReady w k = Some (Fulfilled w)"
  by (subst resolveWhenReady.simps) simp

lemma linksLoop_Return_counter:
  "linksLoop W u r c window links = Return w \<Longrightarrow> linksLoop W u r c' window links = Return w"
  by (induction links) (auto simp: Let_def split: if_splits)

lemma onLoaded_Return_counter:
  "onLoaded W u r c window = Return w \<Longrightarrow> onLoaded W u r c' window = Return w"
  by (auto simp: onLoaded_def split: option.splits dest: linksLoop_Return_counter)

lemma zip_upt_Cons: "c < n \<Longrightarrow> zip (x # xs) [c ..< n] = (x, c) # zip xs [Suc c ..< n]"
  by (simp add: upt_rec[of c])

lemma zip_take_right: "zip xs ys = zip (take (length ys) xs) ys"
proof -
  have "zip xs ys = take (length ys) (zip xs ys)" by simp
  also have "\<dots> = zip (take (length ys) xs) ys" by (simp only: take_zip take_all order_refl)
  finally show ?thesis .
qed

lemma fromUrl_final:
  assumes "finalPage W u = Some w" "c < 5"
  shows "loadSpecificationFromUrl W (Some u) (Some c) = (Fulfilled w, [(Some u, c)])"
proof -
  from assms(1) obtain url' responseUrl' window where
    p: "pageAt W u = Some (url', responseUrl', window)" and
    o: "onLoaded W url' responseUrl' 0 window = Return w"
    by (auto simp: finalPage_def split: option.splits action.splits)
  from o have o': "onLoaded W url' responseUrl' c window = Return w"
    by (rule onLoaded_Return_counter)
  from p o' assms(2) show ?thesis
    by (subst fromUrl_unfold)
       (auto simp: pageAt_def Let_def continueWith_def split: promise.splits)
qed

lemma fromUrl_hop:
  assumes "refreshHop W u v" "c < 5"
  shows "loadSpecificationFromUrl W (Some u) (Some c) =
           (fst (loadSpecificationFromUrl W (Some v) (Some (c + 1))),
            (Some u, c) # snd (loadSpecificationFromUrl W (Some v) (Some (c + 1))))"
proof -
  from assms(1) obtain url' responseUrl' window where
    p: "pageAt W u = Some (url', responseUrl', window)" and
    m: "metaRefreshTarget W url' responseUrl' window = Some v"
    by (auto simp: refreshHop_def split: option.splits)
  from m have o: "onLoaded W url' responseUrl' c window = LoadFromUrl v (c + 1)"
    by (simp add: onLoaded_def)
  from p o assms(2) show ?thesis
    by (subst fromUrl_unfold)
       (auto simp: pageAt_def Let_def continueWith_def split: promise.splits)
qed

text \<open>A chain through the URLs \<open>us\<close>, entered with counter \<open>c\<close>: the last window when the
  counter stays below 5 on the way, the loop error otherwise; one fetch per URL reached.\<close>

lemma fromUrl_chain:
  "chainEnd W us = Some w \<Longrightarrow>
   loadSpecificationFromUrl W (Some (hd us)) (Some c) =
     (if c + length us \<le> 5
      then (Fulfilled w, zip (map Some us) [c ..< c + length us])
      else (Rejected (Error ''Infinite loop detected''), zip (map Some us) [c ..< 5]))"
proof (induction W us arbitrary: c rule: chainEnd.induct)
  case (1 W)
  then show ?case by simp
next
  case (2 W u)
  show ?case
  proof (cases "c < 5")
    case True
    with 2 show ?thesis by (simp add: fromUrl_final zip_upt_Cons del: upt_Suc)
  next
    case False
    then show ?thesis by (simp add: fromUrl_unfold)
  qed
next
  case (3 W u v rest)
  from 3(2) have hop: "refreshHop W u v" and rest: "chainEnd W (v # rest) = Some w"
    by (auto split: if_splits)
  show ?case
  proof (cases "c < 5")
    case True
    have ih: "loadSpecificationFromUrl W (Some v) (Some (c + 1)) =
     (if c + 1 + length (v # rest) \<le> 5
      then (Fulfilled w, zip (map Some (v # rest)) [c + 1 ..< c + 1 + length (v # rest)])
      else (Rejected (Error ''Infinite loop detected''), zip (map Some (v # rest)) [c + 1 ..< 5]))"
      using 3(1)[OF hop rest, of "c + 1"] by simp
    have "loadSpecificationFromUrl W (Some (hd (u # v # rest))) (Some c) =
           (fst (loadSpecificationFromUrl W (Some v) (Some (c + 1))),
            (Some u, c) # snd (loadSpecificationFromUrl W (Some v) (Some (c + 1))))"
      using fromUrl_hop[OF hop True] by simp
    also have "\<dots> = (if c + length (u # v # rest) \<le> 5
      then (Fulfilled w, zip (map Some (u # v # rest)) [c ..< c + length (u # v # rest)])
      else (Rejected (Error ''Infinite loop detected''), zip (map Some (u # v # rest)) [c ..< 5]))"
      unfolding ih using True by (simp del: upt_Suc add: zip_upt_Cons)
    finally show ?thesis .
  next
    case False
    then show ?thesis by (simp add: fromUrl_unfold)
  qed
qed

lemma startsWith_iff: "startsWith s p \<longleftrightarrow> (\<exists>b. s = p @ b)"
  unfolding startsWith_def
  by (metis append_eq_conv_conj append_take_drop_id)

lemma str_includes_iff: "str_includes s p \<longleftrightarrow> (\<exists>a b. s = a @ p @ b)"
proof (induction s)
  case Nil
  then show ?case by auto
next
  case (Cons c s)
  show ?case
  proof
    assume "str_includes (c # s) p"
    then consider "startsWith (c # s) p" | "str_includes s p" by auto
    then show "\<exists>a b. c # s = a @ p @ b"
    proof cases
      case 1
      then obtain b where "c # s = p @ b" by (auto simp: startsWith_iff)
      then have "c # s = [] @ p @ b" by simp
      then show ?thesis by blast
    next
      case 2
      with Cons obtain a b where "s = a @ p @ b" by auto
      then have "c # s = (c # a) @ p @ b" by simp
      then show ?thesis by blast
    qed
  next
    assume "\<exists>a b. c # s = a @ p @ b"
    then obtain a b where e: "c # s = a @ p @ b" by auto
    show "str_includes (c # s) p"
    proof (cases a)
      case Nil
      with e have "startsWith (c # s) p" unfolding startsWith_iff by auto
      then show ?thesis by simp
    next
      case (Cons x a')
      with e have "s = a' @ p @ b" by simp
      with Cons.IH show ?thesis by auto
    qed
  qed
qed

lemma split_unfold:
  "split sep s =
     takeWhile (\<lambda>c. c \<noteq> sep) s #
       (case dropWhile (\<lambda>c. c \<noteq> sep) s of [] \<Rightarrow> [] | x # t \<Rightarrow> split sep t)"
proof (induction s)
  case Nil
  then show ?case by simp
next
  case (Cons c s)
  then show ?case by (cases "split sep s") (auto split: list.splits)
qed

lemma second_field:
  "at_index (split sep s) 1 =
     (case dropWhile (\<lambda>c. c \<noteq> sep) s of
        [] \<Rightarrow> None
      | x # t \<Rightarrow> Some (takeWhile (\<lambda>c. c \<noteq> sep) t))"
proof (cases "dropWhile (\<lambda>c. c \<noteq> sep) s")
  case Nil
  have "split sep s = [takeWhile (\<lambda>c. c \<noteq> sep) s]"
    by (subst split_unfold) (simp add: Nil)
  then show ?thesis unfolding Nil by (simp add: at_index_def)
next
  case (Cons x t)
  have "split sep s = takeWhile (\<lambda>c. c \<noteq> sep) s # split sep t"
    by (subst split_unfold) (simp add: Cons)
  moreover have "split sep t = takeWhile (\<lambda>c. c \<noteq> sep) t #
       (case dropWhile (\<lambda>c. c \<noteq> sep) t of [] \<Rightarrow> [] | x # t' \<Rightarrow> split sep t')"
    by (rule split_unfold)
  ultimately show ?thesis unfolding Cons by (simp add: at_index_def)
qed

lemma second_field_iff:
  "at_index (split sep s) 1 = Some f \<longleftrightarrow>
     (\<exists>f0 rest. s = f0 @ sep # f @ rest \<and> sep \<notin> set f0 \<and> sep \<notin> set f \<and>
        (rest = [] \<or> hd rest = sep))"
proof
  assume a: "at_index (split sep s) 1 = Some f"
  then obtain x t where d: "dropWhile (\<lambda>c. c \<noteq> sep) s = x # t"
    and f: "f = takeWhile (\<lambda>c. c \<noteq> sep) t"
    unfolding second_field by (cases "dropWhile (\<lambda>c. c \<noteq> sep) s") auto
  from d have x: "x = sep" using hd_dropWhile[of "\<lambda>c. c \<noteq> sep" s] by simp
  have s: "s = takeWhile (\<lambda>c. c \<noteq> sep) s @ sep # f @ dropWhile (\<lambda>c. c \<noteq> sep) t"
    using takeWhile_dropWhile_id[of "\<lambda>c. c \<noteq> sep" s] d x f by simp
  have r: "dropWhile (\<lambda>c. c \<noteq> sep) t = [] \<or> hd (dropWhile (\<lambda>c. c \<noteq> sep) t) = sep"
    using hd_dropWhile[of "\<lambda>c. c \<noteq> sep" t] by blast
  have "sep \<notin> set (takeWhile (\<lambda>c. c \<noteq> sep) s)" "sep \<notin> set f"
    using f by (auto dest: set_takeWhileD)
  with s r show "\<exists>f0 rest. s = f0 @ sep # f @ rest \<and> sep \<notin> set f0 \<and> sep \<notin> set f \<and>
        (rest = [] \<or> hd rest = sep)" by blast
next
  assume "\<exists>f0 rest. s = f0 @ sep # f @ rest \<and> sep \<notin> set f0 \<and> sep \<notin> set f \<and>
        (rest = [] \<or> hd rest = sep)"
  then obtain f0 rest where s: "s = f0 @ sep # f @ rest" and f0: "sep \<notin> set f0"
    and f: "sep \<notin> set f" and r: "rest = [] \<or> hd rest = sep" by blast
  from s f0 have d: "dropWhile (\<lambda>c. c \<noteq> sep) s = sep # f @ rest"
    by (auto simp: dropWhile_append3)
  have "takeWhile (\<lambda>c. c \<noteq> sep) (f @ rest) = f"
  proof (cases rest)
    case Nil
    with f show ?thesis by auto
  next
    case (Cons y ys)
    with r have "y = sep" by simp
    with f Cons show ?thesis by (auto simp: takeWhile_tail)
  qed
  with d show "at_index (split sep s) 1 = Some f" unfolding second_field by simp
qed

lemma linksLoop_find:
  "linksLoop W u r c window links =
     (case find (\<lambda>l. isSinglePageText (toLowerCase (textContent l))) links of
        None \<Rightarrow> Return window
      | Some link \<Rightarrow>
          (let singlePage = URL_resolve W (baseURI window) (href_attr link) in
           if singlePage = u \<or> singlePage = r then Return window
           else LoadFromUrl singlePage (c + 1)))"
  by (induction links) (simp_all add: Let_def)

lemma fromHtml_step:
  "loadSpecificationFromHtml W spec c =
     (case loadPromise W (htmlOf spec) (responseUrlOf spec) of
        Rejected e \<Rightarrow> (Rejected e, [])
      | Pending \<Rightarrow> (Pending, [])
      | Fulfilled window \<Rightarrow>
          continueWith W (onLoaded W (urlOf spec) (responseUrlOf spec) (counterOr0 c) window))"
  unfolding fromHtml_unfold urlOf_def responseUrlOf_def htmlOf_def Let_def ..

lemma fromUrl_first_fetch:
  "\<exists>rest. snd (loadSpecificationFromUrl W u None) = (u, 0) # rest"
  by (simp add: loadSpecificationFromUrl.simps counterOr0_def Let_def split: promise.splits)

lemma fromHtml_same_markup:
  "dropBOM h1 = dropBOM h2 \<Longrightarrow>
     loadSpecificationFromHtml W (spec\<lparr>html := Some h1\<rparr>) c =
     loadSpecificationFromHtml W (spec\<lparr>html := Some h2\<rparr>) c"
  by (simp add: fromHtml_step htmlOf_def urlOf_def responseUrlOf_def loadPromise_def
        cong: promise.case_cong)

lemma search_iff: "search rx s \<noteq> None \<longleftrightarrow> (\<exists>a b. s = a @ b \<and> matches rx b \<noteq> [])"
proof (induction s)
  case Nil
  then show ?case by (auto simp: matchAt_def split: list.splits)
next
  case (Cons c s)
  show ?case
  proof (cases "matches rx (c # s)")
    case Nil
    then have "search rx (c # s) \<noteq> None \<longleftrightarrow> search rx s \<noteq> None"
      by (simp add: matchAt_def)
    also have "\<dots> \<longleftrightarrow> (\<exists>a b. s = a @ b \<and> matches rx b \<noteq> [])" by (rule Cons.IH)
    also have "\<dots> \<longleftrightarrow> (\<exists>a b. c # s = a @ b \<and> matches rx b \<noteq> [])"
    proof
      assume "\<exists>a b. s = a @ b \<and> matches rx b \<noteq> []"
      then obtain a b where "s = a @ b" "matches rx b \<noteq> []" by blast
      then have "c # s = (c # a) @ b \<and> matches rx b \<noteq> []" by simp
      then show "\<exists>a b. c # s = a @ b \<and> matches rx b \<noteq> []" by blast
    next
      assume "\<exists>a b. c # s = a @ b \<and> matches rx b \<noteq> []"
      then obtain a b where e: "c # s = a @ b" and m: "matches rx b \<noteq> []" by blast
      with Nil have "a \<noteq> []" by auto
      then obtain a' where "a = c # a'" using e by (cases a) auto
      with e m show "\<exists>a b. s = a @ b \<and> matches rx b \<noteq> []" by auto
    qed
    finally show ?thesis .
  next
    case (Cons r rs)
    then have "search rx (c # s) \<noteq> None" by (simp add: matchAt_def)
    moreover from Cons have "c # s = [] @ (c # s) \<and> matches rx (c # s) \<noteq> []" by simp
    then have "\<exists>a b. c # s = a @ b \<and> matches rx b \<noteq> []" by blast
    ultimately show ?thesis by simp
  qed
qed

lemma matches_LitI:
  "matches [LitI l] s \<noteq> [] \<longleftrightarrow> (\<exists>m b. s = m @ b \<and> map upperChar m = map upperChar l)"
proof
  assume "matches [LitI l] s \<noteq> []"
  then have "length l \<le> length s" "map upperChar (take (length l) s) = map upperChar l"
    by (auto split: if_splits)
  then have "s = take (length l) s @ drop (length l) s \<and>
     map upperChar (take (length l) s) = map upperChar l" by simp
  then show "\<exists>m b. s = m @ b \<and> map upperChar m = map upperChar l" by blast
next
  assume "\<exists>m b. s = m @ b \<and> map upperChar m = map upperChar l"
  then obtain m b where s: "s = m @ b" and m: "map upperChar m = map upperChar l" by blast
  from m have "length m = length l" by (metis length_map)
  with s m show "matches [LitI l] s \<noteq> []" by simp
qed

lemma regex_test_LitI:
  "regex_test [LitI l] s \<longleftrightarrow> (\<exists>a m b. s = a @ m @ b \<and> map upperChar m = map upperChar l)"
  unfolding regex_test_def search_iff matches_LitI by blast


lemma upper_bikeshed: "map upperChar ''bikeshed'' = ''BIKESHED''"
  by (simp add: upperChar_def char_of_def bit_Suc_0_iff)

lemma resolveWhenReady_defined:
  "respecIsReady w t = Some r \<Longrightarrow> resolveWhenReady w t = Some (fate w r)"
  by (subst resolveWhenReady.simps) (simp add: fate_def)

lemma resolveWhenReady_poll:
  "respecIsReady w t = None \<Longrightarrow> usesRespec w \<Longrightarrow>
   resolveWhenReady w t = resolveWhenReady w (t + 100)"
  by (subst resolveWhenReady.simps) simp

lemma resolveWhenReady_first:
  assumes "usesRespec w" "respecIsReady w (t + 100 * n) = Some r"
    "\<forall>j<n. respecIsReady w (t + 100 * j) = None"
  shows "resolveWhenReady w t = Some (fate w r)"
  using assms
proof (induction n arbitrary: t)
  case 0
  then show ?case by (simp add: resolveWhenReady_defined)
next
  case (Suc n)
  from Suc.prems(3) have "respecIsReady w (t + 100 * 0) = None" by blast
  then have "respecIsReady w t = None" by simp
  with Suc.prems(1) have "resolveWhenReady w t = resolveWhenReady w (t + 100)"
    by (rule resolveWhenReady_poll[rotated])
  moreover have "resolveWhenReady w (t + 100) = Some (fate w r)"
  proof (rule Suc.IH[OF Suc.prems(1)])
    show "respecIsReady w (t + 100 + 100 * n) = Some r"
      using Suc.prems(2) by (simp add: add.assoc)
    show "\<forall>j<n. respecIsReady w (t + 100 + 100 * j) = None"
    proof (intro allI impI)
      fix j assume "j < n"
      then have "Suc j < Suc n" by simp
      with Suc.prems(3) have "respecIsReady w (t + 100 * Suc j) = None" by blast
      then show "respecIsReady w (t + 100 + 100 * j) = None" by (simp add: add.assoc)
    qed
  qed
  ultimately show ?case by simp
qed

lemma readyAfter_now: "respecIsReady w t = Some r \<Longrightarrow> readyAfter w t (fate w r)"
  unfolding readyAfter_def by (rule exI[of _ 0]) simp

lemma readyAfter_later:
  assumes "respecIsReady w t = None" "readyAfter w (t + 100) p"
  shows "readyAfter w t p"
proof -
  from assms(2) obtain n r where
    a: "respecIsReady w (t + 100 + 100 * n) = Some r"
    and b: "\<forall>j<n. respecIsReady w (t + 100 + 100 * j) = None"
    and c: "p = fate w r" unfolding readyAfter_def by blast
  have "respecIsReady w (t + 100 * Suc n) = Some r" using a by (simp add: add.assoc)
  moreover have "\<forall>j<Suc n. respecIsReady w (t + 100 * j) = None"
  proof (intro allI impI)
    fix j assume "j < Suc n"
    show "respecIsReady w (t + 100 * j) = None"
    proof (cases j)
      case 0
      with assms(1) show ?thesis by simp
    next
      case (Suc j')
      with \<open>j < Suc n\<close> b have "respecIsReady w (t + 100 + 100 * j') = None" by simp
      with Suc show ?thesis by (simp add: add.assoc)
    qed
  qed
  ultimately show ?thesis unfolding readyAfter_def using c by blast
qed

lemma resolveWhenReady_Some:
  assumes h: "resolveWhenReady w t = Some p"
  shows "usesRespec w \<longrightarrow> readyAfter w t p"
proof (rule resolveWhenReady.raw_induct[where P = "\<lambda>w t p. usesRespec w \<longrightarrow> readyAfter w t p", OF _ h])
  fix rec :: "window \<Rightarrow> nat \<Rightarrow> window promise option" and w t p
  assume IH: "\<And>w t p. rec w t = Some p \<Longrightarrow> usesRespec w \<longrightarrow> readyAfter w t p"
    and eq: "(case respecIsReady w t of
      None \<Rightarrow> if usesRespec w then rec w (t + 100) else Some (Fulfilled w)
      | Some r \<Rightarrow>
          Some (case r of ReadyFulfilled \<Rightarrow> Fulfilled w
            | ReadyRejected e \<Rightarrow> Rejected e | ReadyPending \<Rightarrow> Pending)) = Some p"
  show "usesRespec w \<longrightarrow> readyAfter w t p"
  proof
    assume u: "usesRespec w"
    show "readyAfter w t p"
    proof (cases "respecIsReady w t")
      case None
      with eq u have "rec w (t + 100) = Some p" by simp
      from IH[OF this] u have "readyAfter w (t + 100) p" by simp
      with None show ?thesis by (rule readyAfter_later)
    next
      case (Some r)
      with eq have "p = fate w r" by (auto simp: fate_def)
      with readyAfter_now[OF Some] show ?thesis by simp
    qed
  qed
qed

lemma resolveWhenReady_never:
  assumes "usesRespec w" "\<forall>n. respecIsReady w (t + 100 * n) = None"
  shows "resolveWhenReady w t = None"
proof (cases "resolveWhenReady w t")
  case None
  then show ?thesis .
next
  case (Some p)
  from resolveWhenReady_Some[OF this] assms show ?thesis by (auto simp: readyAfter_def)
qed

lemma getDocumentAndGenerator_cases:
  "getDocumentAndGenerator window =
     (if isBikeshed window then resolved window (Some ''bikeshed'')
      else if bodyId window = ''respecDocument'' then resolved window (Some ''respec'')
      else if usesRespec window then
        \<lparr>promise = Pending, timer = Some 30000,
         win = window\<lparr>respecConfig :=
           Some ((the (respecConfig window))\<lparr>postProcess :=
              Some ((case postProcess (the (respecConfig window)) of None \<Rightarrow> [] | Some hs \<Rightarrow> hs)
                    @ [GeneratorHook])\<rparr>)\<rparr>,
         docVar = window\<rparr>
      else if anolisReferences window then resolved window (Some ''anolis'')
      else resolved window None)"
  by (auto simp: getDocumentAndGenerator_def isBikeshed_def usesRespec_def Let_def
        split: option.splits)

lemmas sample_simps = chainWorld_def siteWorld_def refreshPage_def plainWindow_def loadPromise_def dropBOM_def
  resolveWhenReady_static usesRespec_def onLoaded_def metaRefreshTarget_def orElse_def
  counterOr0_def at_index_def trim_def isSpace_def Let_def pageAt_def refreshHop_def
  finalPage_def

lemma chainEnd_chain4: "chainEnd (chainWorld chain4) chain4 = Some (plainWindow ''http://s.test/d'')"
  by (simp add: chain4_def sample_simps)

lemma chainEnd_chain7: "chainEnd (chainWorld chain7) chain7 = Some (plainWindow ''http://s.test/g'')"
  by (simp add: chain7_def sample_simps)

section \<open>The bound on redirections\<close>

text \<open>
  Claim C2. A call of \<^verbatim>\<open>loadSpecificationFromUrl\<close> whose counter is 5 or more rejects
  with the error "Infinite loop detected" and fetches nothing. A forward chain of three
  meta refreshes through A, B, C and D, where D redirects no further, resolves to the
  window of D; the four fetches are made with the counters 0, 1, 2 and 3. A chain of six
  meta refreshes rejects with the same error, after the five fetches of its first five
  pages.
\<close>

theorem loadSpecificationFromUrl_hop_bound:
  "(\<forall>c\<ge>5. loadSpecificationFromUrl W u (Some c) =
       (Rejected (Error ''Infinite loop detected''), []))
   \<and> (chainEnd W [a, b, c', d] = Some w \<longrightarrow>
        loadSpecificationFromUrl W (Some a) None =
          (Fulfilled w, [(Some a, 0), (Some b, 1), (Some c', 2), (Some d, 3)]))
   \<and> (chainEnd W us = Some w' \<and> length us = 7 \<longrightarrow>
        loadSpecificationFromUrl W (Some (hd us)) None =
          (Rejected (Error ''Infinite loop detected''), zip (map Some (take 5 us)) [0 ..< 5]))"
proof (intro conjI allI impI)
  fix c :: nat
  assume "5 \<le> c"
  then show "loadSpecificationFromUrl W u (Some c) =
      (Rejected (Error ''Infinite loop detected''), [])"
    by (simp add: loadSpecificationFromUrl.simps counterOr0_def)
next
  assume "chainEnd W [a, b, c', d] = Some w"
  from fromUrl_chain[OF this, of 0]
  show "loadSpecificationFromUrl W (Some a) None =
      (Fulfilled w, [(Some a, 0), (Some b, 1), (Some c', 2), (Some d, 3)])"
    by (simp add: fromUrl_no_counter zip_upt_Cons del: upt_Suc)
next
  assume h: "chainEnd W us = Some w' \<and> length us = 7"
  then have l: "length us = 7" by simp
  have "zip (map Some us) [0 ..< 5] = zip (map Some (take 5 us)) [0 ..< 5]"
    using zip_take_right[of "map Some us" "[0 ..< 5]"] by (simp add: take_map)
  with fromUrl_chain[of W us w' 0] h
  show "loadSpecificationFromUrl W (Some (hd us)) None =
      (Rejected (Error ''Infinite loop detected''), zip (map Some (take 5 us)) [0 ..< 5])"
    by (simp add: fromUrl_no_counter)
qed

theorem loadSpecificationFromUrl_hop_bound_witness:
  "loadSpecificationFromUrl (chainWorld chain4) (Some ''http://s.test/a'') (Some 5) =
     (Rejected (Error ''Infinite loop detected''), [])
   \<and> chainEnd (chainWorld chain4) chain4 = Some (plainWindow ''http://s.test/d'')
   \<and> loadSpecificationFromUrl (chainWorld chain4) (Some ''http://s.test/a'') None =
       (Fulfilled (plainWindow ''http://s.test/d''),
        [(Some ''http://s.test/a'', 0), (Some ''http://s.test/b'', 1),
         (Some ''http://s.test/c'', 2), (Some ''http://s.test/d'', 3)])
   \<and> chainEnd (chainWorld chain7) chain7 = Some (plainWindow ''http://s.test/g'')
   \<and> length chain7 = 7
   \<and> loadSpecificationFromUrl (chainWorld chain7) (Some ''http://s.test/a'') None =
       (Rejected (Error ''Infinite loop detected''),
        [(Some ''http://s.test/a'', 0), (Some ''http://s.test/b'', 1),
         (Some ''http://s.test/c'', 2), (Some ''http://s.test/d'', 3),
         (Some ''http://s.test/e'', 4)])"
proof -
  note t4 = loadSpecificationFromUrl_hop_bound
    [of "chainWorld chain4" "Some ''http://s.test/a''" "''http://s.test/a''" "''http://s.test/b''"
        "''http://s.test/c''" "''http://s.test/d''" "plainWindow ''http://s.test/d''"
        "[]" "plainWindow ''http://s.test/d''"]
  note t7 = loadSpecificationFromUrl_hop_bound
    [of "chainWorld chain7" "Some ''http://s.test/a''" "''http://s.test/a''" "''http://s.test/b''"
        "''http://s.test/c''" "''http://s.test/d''" "plainWindow ''http://s.test/d''"
        chain7 "plainWindow ''http://s.test/g''"]
  have a: "loadSpecificationFromUrl (chainWorld chain4) (Some ''http://s.test/a'') (Some 5) =
     (Rejected (Error ''Infinite loop detected''), [])"
    using t4 by simp
  have b: "loadSpecificationFromUrl (chainWorld chain4) (Some ''http://s.test/a'') None =
       (Fulfilled (plainWindow ''http://s.test/d''),
        [(Some ''http://s.test/a'', 0), (Some ''http://s.test/b'', 1),
         (Some ''http://s.test/c'', 2), (Some ''http://s.test/d'', 3)])"
    using t4 chainEnd_chain4 by (simp add: chain4_def)
  have c: "loadSpecificationFromUrl (chainWorld chain7) (Some ''http://s.test/a'') None =
       (Rejected (Error ''Infinite loop detected''),
        [(Some ''http://s.test/a'', 0), (Some ''http://s.test/b'', 1),
         (Some ''http://s.test/c'', 2), (Some ''http://s.test/d'', 3),
         (Some ''http://s.test/e'', 4)])"
    using t7 chainEnd_chain7 by (simp add: chain7_def zip_upt_Cons del: upt_Suc)
  show ?thesis
    using a b c chainEnd_chain4 chainEnd_chain7 by (simp add: chain7_def)
qed

section \<open>URL or markup\<close>

text \<open>
  Claim C9. When the \<^verbatim>\<open>html\<close> property of the request is missing or the empty string,
  \<^verbatim>\<open>loadSpecification\<close> is \<^verbatim>\<open>loadSpecificationFromUrl\<close> on the \<^verbatim>\<open>url\<close> property, whose
  first effect is the fetch of that URL with counter 0; when \<^verbatim>\<open>html\<close> is a non-empty
  string it is \<^verbatim>\<open>loadSpecificationFromHtml\<close> on the request. A request that is a string
  is loaded from that URL.
\<close>

theorem loadSpecification_branch:
  "((html spec = None \<or> html spec = Some []) \<longrightarrow>
       loadSpecification W (Obj spec) = loadSpecificationFromUrl W (url spec) None
       \<and> (\<exists>rest. snd (loadSpecification W (Obj spec)) = (url spec, 0) # rest))
   \<and> (\<forall>h. html spec = Some h \<and> h \<noteq> [] \<longrightarrow>
        loadSpecification W (Obj spec) = loadSpecificationFromHtml W spec None)
   \<and> loadSpecification W (Url s) = loadSpecificationFromUrl W (Some s) None"
  using fromUrl_first_fetch[of W "url spec"]
  by (auto simp: loadSpecification_def)

theorem loadSpecification_branch_witness:
  "html emptySpec = Some []
   \<and> loadSpecification (chainWorld chain4) (Obj emptySpec) =
       loadSpecificationFromUrl (chainWorld chain4) (url emptySpec) None
   \<and> loadSpecification (chainWorld chain4) (Obj emptySpec) =
       (Fulfilled (plainWindow ''http://s.test/d''), [(Some ''http://s.test/d'', 0)])
   \<and> html plainSpec = Some [0x61]
   \<and> loadSpecification (chainWorld chain4) (Obj plainSpec) =
       loadSpecificationFromHtml (chainWorld chain4) plainSpec None
   \<and> loadSpecification (chainWorld chain4) (Obj plainSpec) =
       (Fulfilled (plainWindow ''http://s.test/d''), [])"
proof -
  have a: "loadSpecification (chainWorld chain4) (Obj emptySpec) =
       loadSpecificationFromUrl (chainWorld chain4) (url emptySpec) None"
    using loadSpecification_branch[of emptySpec "chainWorld chain4" "[]"]
    by (simp add: emptySpec_def)
  have b: "loadSpecification (chainWorld chain4) (Obj plainSpec) =
       loadSpecificationFromHtml (chainWorld chain4) plainSpec None"
    using loadSpecification_branch[of plainSpec "chainWorld chain4" "[]"]
    by (simp add: plainSpec_def)
  have c: "loadSpecificationFromUrl (chainWorld chain4) (url emptySpec) None =
       (Fulfilled (plainWindow ''http://s.test/d''), [(Some ''http://s.test/d'', 0)])"
    by (simp add: emptySpec_def fromUrl_no_counter fromUrl_unfold continueWith_def chain4_def
          sample_simps)
  have d: "loadSpecificationFromHtml (chainWorld chain4) plainSpec None =
       (Fulfilled (plainWindow ''http://s.test/d''), [])"
    by (simp add: plainSpec_def fromHtml_unfold continueWith_def chain4_def sample_simps)
  show ?thesis using a b c d by (simp add: emptySpec_def plainSpec_def)
qed

section \<open>The defaults of a raw-markup load\<close>

text \<open>
  Claim C10. \<^verbatim>\<open>loadSpecificationFromHtml\<close> works with two values. \<open>U\<close> is the \<^verbatim>\<open>url\<close> of
  the request, and \<^verbatim>\<open>about:blank\<close> when the request has none (or an empty one). \<open>R\<close> is the
  \<^verbatim>\<open>responseUrl\<close> of the request, and \<open>U\<close> when the request has none (or an empty one): a
  \<^verbatim>\<open>url\<close> that is given stands for the missing \<^verbatim>\<open>responseUrl\<close>. The document is loaded
  with \<open>R\<close> as its URL, and the comparisons are made with \<open>U\<close> and \<open>R\<close>: a meta refresh
  whose target resolves to \<open>U\<close> or to \<open>R\<close> is not followed (the load goes on with the
  links), and a first single-page link that resolves to \<open>U\<close> or to \<open>R\<close> returns the
  window.
\<close>

theorem loadSpecificationFromHtml_defaults:
  "(url spec = None \<or> url spec = Some []) \<and> U = ''about:blank'' \<or> url spec = Some U \<and> U \<noteq> [] \<Longrightarrow>
   (responseUrl spec = None \<or> responseUrl spec = Some []) \<and> R = U
     \<or> responseUrl spec = Some R \<and> R \<noteq> [] \<Longrightarrow>
     loadSpecificationFromHtml W spec c =
       (case loadPromise W (htmlOf spec) R of
          Rejected e \<Rightarrow> (Rejected e, [])
        | Pending \<Rightarrow> (Pending, [])
        | Fulfilled window \<Rightarrow> continueWith W (onLoaded W U R (counterOr0 c) window))
     \<and> (loadPromise W (htmlOf spec) R = Fulfilled window
          \<and> metaRefresh window = Some (Some content)
          \<and> at_index (split CHR '';'' content) 1 = Some f
          \<and> (URL_resolve W (baseURI window) (trim f) = U
               \<or> URL_resolve W (baseURI window) (trim f) = R)
        \<longrightarrow> loadSpecificationFromHtml W spec c =
              continueWith W (linksLoop W U R (counterOr0 c) window (headLinks window)))
     \<and> (loadPromise W (htmlOf spec) R = Fulfilled window
          \<and> metaRefreshTarget W U R window = None
          \<and> find isSinglePageLink (headLinks window) = Some link
          \<and> (URL_resolve W (baseURI window) (href_attr link) = U
               \<or> URL_resolve W (baseURI window) (href_attr link) = R)
        \<longrightarrow> loadSpecificationFromHtml W spec c = (Fulfilled window, []))"
proof -
  assume hu: "(url spec = None \<or> url spec = Some []) \<and> U = ''about:blank'' \<or> url spec = Some U \<and> U \<noteq> []"
    and hr: "(responseUrl spec = None \<or> responseUrl spec = Some []) \<and> R = U
     \<or> responseUrl spec = Some R \<and> R \<noteq> []"
  from hu have u: "urlOf spec = U" by (auto simp: urlOf_def orElse_def)
  from hr u have r: "responseUrlOf spec = R" by (auto simp: responseUrlOf_def orElse_def)
  have step: "loadSpecificationFromHtml W spec c =
       (case loadPromise W (htmlOf spec) R of
          Rejected e \<Rightarrow> (Rejected e, [])
        | Pending \<Rightarrow> (Pending, [])
        | Fulfilled window \<Rightarrow> continueWith W (onLoaded W U R (counterOr0 c) window))"
    using fromHtml_step[of W spec c] unfolding u r .
  have refresh: "loadSpecificationFromHtml W spec c =
              continueWith W (linksLoop W U R (counterOr0 c) window (headLinks window))"
    if a: "loadPromise W (htmlOf spec) R = Fulfilled window
          \<and> metaRefresh window = Some (Some content)
          \<and> at_index (split CHR '';'' content) 1 = Some f
          \<and> (URL_resolve W (baseURI window) (trim f) = U
               \<or> URL_resolve W (baseURI window) (trim f) = R)"
  proof -
    from a have "metaRefreshTarget W U R window = None"
      by (auto simp: metaRefreshTarget_def orElse_def at_index_def split: if_splits)
    with a show ?thesis by (simp add: step onLoaded_def)
  qed
  have link: "loadSpecificationFromHtml W spec c = (Fulfilled window, [])"
    if a: "loadPromise W (htmlOf spec) R = Fulfilled window
          \<and> metaRefreshTarget W U R window = None
          \<and> find isSinglePageLink (headLinks window) = Some link
          \<and> (URL_resolve W (baseURI window) (href_attr link) = U
               \<or> URL_resolve W (baseURI window) (href_attr link) = R)"
  proof -
    from a have "find (\<lambda>l. isSinglePageText (toLowerCase (textContent l))) (headLinks window) = Some link"
      by (simp add: isSinglePageLink_def[abs_def])
    with a show ?thesis
      by (auto simp: step onLoaded_def linksLoop_find continueWith_def)
  qed
  from step refresh link show ?thesis by blast
qed

lemma blank_link:
  "find isSinglePageLink (headLinks blankPage) =
       Some \<lparr>textContent = ''Single Page'', href_attr = ''about:blank''\<rparr>"
  by (simp add: blankPage_def sample_simps isSinglePageLink_def isSinglePageText_def
          toLowerCase_def lowerChar_def startsWith_def char_of_def bit_Suc_0_iff)

theorem loadSpecificationFromHtml_defaults_witness:
  "url (rawSpec [0x61]) = None \<and> responseUrl (rawSpec [0x61]) = None
   \<and> loadPromise blankWorld (htmlOf (rawSpec [0x61])) ''about:blank'' = Fulfilled blankPage
   \<and> metaRefresh blankPage = Some (Some ''0; about:blank'')
   \<and> at_index (split CHR '';'' ''0; about:blank'') 1 = Some '' about:blank''
   \<and> URL_resolve blankWorld (baseURI blankPage) (trim '' about:blank'') = ''about:blank''
   \<and> metaRefreshTarget blankWorld ''about:blank'' ''about:blank'' blankPage = None
   \<and> find isSinglePageLink (headLinks blankPage) =
       Some \<lparr>textContent = ''Single Page'', href_attr = ''about:blank''\<rparr>
   \<and> loadSpecificationFromHtml blankWorld (rawSpec [0x61]) None = (Fulfilled blankPage, [])
   \<and> url urlOnlySpec = Some ''http://s.test/spec'' \<and> responseUrl urlOnlySpec = None
   \<and> loadPromise selfRefreshWorld (htmlOf urlOnlySpec) ''http://s.test/spec'' =
       Fulfilled (refreshPage ''http://s.test/spec'' ''0; http://s.test/spec'')
   \<and> loadPromise selfRefreshWorld (htmlOf urlOnlySpec) ''about:blank'' =
       Fulfilled (refreshPage ''about:blank'' ''0; http://s.test/spec'')
   \<and> at_index (split CHR '';'' ''0; http://s.test/spec'') 1 = Some '' http://s.test/spec''
   \<and> URL_resolve selfRefreshWorld ''http://s.test/spec'' (trim '' http://s.test/spec'') =
       ''http://s.test/spec''
   \<and> loadSpecificationFromHtml selfRefreshWorld urlOnlySpec None =
       (Fulfilled (refreshPage ''http://s.test/spec'' ''0; http://s.test/spec''), [])"
proof -
  note t = loadSpecificationFromHtml_defaults
    [of "rawSpec [0x61]" "''about:blank''" "''about:blank''" blankWorld None blankPage
        "''0; about:blank''" "'' about:blank''"
        "\<lparr>textContent = ''Single Page'', href_attr = ''about:blank''\<rparr>"]
  note s = loadSpecificationFromHtml_defaults
    [of urlOnlySpec "''http://s.test/spec''" "''http://s.test/spec''" selfRefreshWorld None
        "refreshPage ''http://s.test/spec'' ''0; http://s.test/spec''"
        "''0; http://s.test/spec''" "'' http://s.test/spec''"]
  have u: "url (rawSpec [0x61]) = None" "responseUrl (rawSpec [0x61]) = None"
    by (simp_all add: rawSpec_def)
  have m: "metaRefresh blankPage = Some (Some ''0; about:blank'')"
    by (simp add: blankPage_def sample_simps)
  have f: "at_index (split CHR '';'' ''0; about:blank'') 1 = Some '' about:blank''"
    by (simp add: at_index_def)
  have r: "URL_resolve blankWorld (baseURI blankPage) (trim '' about:blank'') = ''about:blank''"
    by (simp add: blankWorld_def blankPage_def sample_simps)
  have g: "metaRefreshTarget blankWorld ''about:blank'' ''about:blank'' blankPage = None"
    by (simp add: blankWorld_def blankPage_def sample_simps)
  have h: "URL_resolve blankWorld (baseURI blankPage)
             (href_attr \<lparr>textContent = ''Single Page'', href_attr = ''about:blank''\<rparr>) = ''about:blank''"
    by (simp add: blankWorld_def blankPage_def sample_simps)
  have p: "loadPromise blankWorld (htmlOf (rawSpec [0x61])) ''about:blank'' = Fulfilled blankPage"
    by (simp add: blankWorld_def blankPage_def rawSpec_def htmlOf_def sample_simps)
  have e: "loadSpecificationFromHtml blankWorld (rawSpec [0x61]) None = (Fulfilled blankPage, [])"
    using t[THEN conjunct2, THEN conjunct2] u g blank_link h p by simp
  have v: "url urlOnlySpec = Some ''http://s.test/spec''" "responseUrl urlOnlySpec = None"
    by (simp_all add: urlOnlySpec_def)
  have q: "loadPromise selfRefreshWorld (htmlOf urlOnlySpec) ''http://s.test/spec'' =
       Fulfilled (refreshPage ''http://s.test/spec'' ''0; http://s.test/spec'')"
    "loadPromise selfRefreshWorld (htmlOf urlOnlySpec) ''about:blank'' =
       Fulfilled (refreshPage ''about:blank'' ''0; http://s.test/spec'')"
    by (simp_all add: selfRefreshWorld_def urlOnlySpec_def htmlOf_def sample_simps)
  have f': "at_index (split CHR '';'' ''0; http://s.test/spec'') 1 = Some '' http://s.test/spec''"
    by (simp add: at_index_def)
  have r': "URL_resolve selfRefreshWorld ''http://s.test/spec'' (trim '' http://s.test/spec'') =
       ''http://s.test/spec''"
    by (simp add: selfRefreshWorld_def sample_simps)
  have l': "linksLoop selfRefreshWorld ''http://s.test/spec'' ''http://s.test/spec'' (counterOr0 None)
       (refreshPage ''http://s.test/spec'' ''0; http://s.test/spec'')
       (headLinks (refreshPage ''http://s.test/spec'' ''0; http://s.test/spec'')) =
       Return (refreshPage ''http://s.test/spec'' ''0; http://s.test/spec'')"
    by (simp add: refreshPage_def plainWindow_def)
  have e': "loadSpecificationFromHtml selfRefreshWorld urlOnlySpec None =
       (Fulfilled (refreshPage ''http://s.test/spec'' ''0; http://s.test/spec''), [])"
    using s[THEN conjunct2, THEN conjunct1] v q(1) f' r' l'
    by (simp add: refreshPage_def plainWindow_def continueWith_def)
  show ?thesis using u m f r g blank_link e p v q f' r' e' by simp
qed

section \<open>Meta refresh\<close>

text \<open>
  Claim C4, amended. For a rendered document with a \<^verbatim>\<open>meta http-equiv="refresh"\<close>
  element, the callback follows the refresh to a target \<open>t\<close> if and only if the
  \<^verbatim>\<open>content\<close> attribute has a second field between semicolons, that field is not
  empty, \<open>t\<close> is the field, trimmed, resolved against the base URI of the document, and
  \<open>t\<close> differs from the requested URL and from the response URL. The load then is
  \<^verbatim>\<open>loadSpecificationFromUrl\<close> on \<open>t\<close> with the counter plus 1; otherwise it goes on with
  the links of the header.
\<close>

theorem metaRefresh_redirect:
  "metaRefresh window = Some content \<Longrightarrow>
     (metaRefreshTarget W u r window = Some t \<longleftrightarrow>
        (\<exists>f0 f rest. orElse content [] = f0 @ CHR '';'' # f @ rest
            \<and> CHR '';'' \<notin> set f0 \<and> CHR '';'' \<notin> set f \<and> (rest = [] \<or> hd rest = CHR '';'')
            \<and> f \<noteq> [] \<and> t = URL_resolve W (baseURI window) (trim f) \<and> t \<noteq> u \<and> t \<noteq> r))
     \<and> (loadPromise W (htmlOf spec) (responseUrlOf spec) = Fulfilled window \<longrightarrow>
          loadSpecificationFromHtml W spec c =
            (case metaRefreshTarget W (urlOf spec) (responseUrlOf spec) window of
               Some t' \<Rightarrow> loadSpecificationFromUrl W (Some t') (Some (counterOr0 c + 1))
             | None \<Rightarrow>
                 continueWith W (linksLoop W (urlOf spec) (responseUrlOf spec) (counterOr0 c)
                                   window (headLinks window))))"
proof (intro conjI impI)
  assume m: "metaRefresh window = Some content"
  show "metaRefreshTarget W u r window = Some t \<longleftrightarrow>
        (\<exists>f0 f rest. orElse content [] = f0 @ CHR '';'' # f @ rest
            \<and> CHR '';'' \<notin> set f0 \<and> CHR '';'' \<notin> set f \<and> (rest = [] \<or> hd rest = CHR '';'')
            \<and> f \<noteq> [] \<and> t = URL_resolve W (baseURI window) (trim f) \<and> t \<noteq> u \<and> t \<noteq> r)"
    (is "?L \<longleftrightarrow> ?R")
  proof
    assume ?L
    with m obtain f where f: "at_index (split CHR '';'' (orElse content [])) 1 = Some f"
      and n: "f \<noteq> []" and t: "t = URL_resolve W (baseURI window) (trim f)" "t \<noteq> u" "t \<noteq> r"
      by (auto simp: metaRefreshTarget_def Let_def split: option.splits if_splits)
    from f obtain f0 rest where "orElse content [] = f0 @ CHR '';'' # f @ rest"
      "CHR '';'' \<notin> set f0" "CHR '';'' \<notin> set f" "rest = [] \<or> hd rest = CHR '';''"
      unfolding second_field_iff by blast
    with n t show ?R by blast
  next
    assume ?R
    then obtain f0 f rest where e: "orElse content [] = f0 @ CHR '';'' # f @ rest"
      "CHR '';'' \<notin> set f0" "CHR '';'' \<notin> set f" "rest = [] \<or> hd rest = CHR '';''"
      and n: "f \<noteq> []" and t: "t = URL_resolve W (baseURI window) (trim f)" "t \<noteq> u" "t \<noteq> r"
      by blast
    from e have "at_index (split CHR '';'' (orElse content [])) 1 = Some f"
      unfolding second_field_iff by blast
    with m n t show ?L by (simp add: metaRefreshTarget_def Let_def)
  qed
next
  assume "loadPromise W (htmlOf spec) (responseUrlOf spec) = Fulfilled window"
  then show "loadSpecificationFromHtml W spec c =
            (case metaRefreshTarget W (urlOf spec) (responseUrlOf spec) window of
               Some t' \<Rightarrow> loadSpecificationFromUrl W (Some t') (Some (counterOr0 c + 1))
             | None \<Rightarrow>
                 continueWith W (linksLoop W (urlOf spec) (responseUrlOf spec) (counterOr0 c)
                                   window (headLinks window)))"
    by (simp add: fromHtml_step onLoaded_def continueWith_def split: option.splits)
qed


theorem metaRefresh_redirect_witness:
  "metaRefresh (refreshPage ''http://s.test/a'' ''0; http://s.test/b'') =
     Some (Some ''0; http://s.test/b'')
   \<and> metaRefreshTarget (chainWorld chain4) ''http://s.test/a'' ''http://s.test/a''
        (refreshPage ''http://s.test/a'' ''0; http://s.test/b'') = Some ''http://s.test/b''
   \<and> orElse (Some ''0; http://s.test/b'') [] = ''0'' @ CHR '';'' # '' http://s.test/b'' @ []
   \<and> loadPromise (chainWorld chain4)
        (htmlOf \<lparr>url = Some ''http://s.test/a'', html = None, responseUrl = None\<rparr>)
        (responseUrlOf \<lparr>url = Some ''http://s.test/a'', html = None, responseUrl = None\<rparr>) =
       Fulfilled (refreshPage ''http://s.test/a'' ''0; http://s.test/b'')
   \<and> loadSpecificationFromHtml (chainWorld chain4)
        \<lparr>url = Some ''http://s.test/a'', html = None, responseUrl = None\<rparr> None =
       loadSpecificationFromUrl (chainWorld chain4) (Some ''http://s.test/b'') (Some 1)"
proof -
  note t = metaRefresh_redirect
    [of "refreshPage ''http://s.test/a'' ''0; http://s.test/b''" "Some ''0; http://s.test/b''"
        "chainWorld chain4" "''http://s.test/a''" "''http://s.test/a''" "''http://s.test/b''"
        "\<lparr>url = Some ''http://s.test/a'', html = None, responseUrl = None\<rparr>" None]
  have m: "metaRefresh (refreshPage ''http://s.test/a'' ''0; http://s.test/b'') =
     Some (Some ''0; http://s.test/b'')"
    by (simp add: sample_simps)
  have g: "metaRefreshTarget (chainWorld chain4) ''http://s.test/a'' ''http://s.test/a''
        (refreshPage ''http://s.test/a'' ''0; http://s.test/b'') = Some ''http://s.test/b''"
    by (simp add: sample_simps)
  have p: "loadPromise (chainWorld chain4)
        (htmlOf \<lparr>url = Some ''http://s.test/a'', html = None, responseUrl = None\<rparr>)
        (responseUrlOf \<lparr>url = Some ''http://s.test/a'', html = None, responseUrl = None\<rparr>) =
       Fulfilled (refreshPage ''http://s.test/a'' ''0; http://s.test/b'')"
    by (simp add: htmlOf_def responseUrlOf_def urlOf_def chain4_def sample_simps)
  have u: "urlOf \<lparr>url = Some ''http://s.test/a'', html = None, responseUrl = None\<rparr> = ''http://s.test/a''"
     "responseUrlOf \<lparr>url = Some ''http://s.test/a'', html = None, responseUrl = None\<rparr> = ''http://s.test/a''"
    by (simp_all add: responseUrlOf_def urlOf_def orElse_def)
  have e: "loadSpecificationFromHtml (chainWorld chain4)
        \<lparr>url = Some ''http://s.test/a'', html = None, responseUrl = None\<rparr> None =
       loadSpecificationFromUrl (chainWorld chain4) (Some ''http://s.test/b'') (Some 1)"
    using t[OF m] p g by (simp add: u counterOr0_def)
  show ?thesis using m g p e by (simp add: orElse_def)
qed

text \<open>
  The claim as it was written fails on a refresh without a target: the second field of
  \<^verbatim>\<open>0;\<close> is the empty string, which resolves to the base URI of the document; that
  URI differs from the requested URL and from the response URL, and the code still
  returns the window and fetches nothing, where following the refresh would fetch.
\<close>

theorem metaRefresh_empty_field_counterexample:
  "metaRefresh (refreshPage ''http://s.test/base/'' ''0;'') = Some (Some ''0;'')
   \<and> at_index (split CHR '';'' ''0;'') 1 = Some []
   \<and> URL_resolve emptyRefreshWorld (baseURI (refreshPage ''http://s.test/base/'' ''0;'')) (trim [])
       = ''http://s.test/base/''
   \<and> ''http://s.test/base/'' \<noteq> urlOf emptyRefreshSpec
   \<and> ''http://s.test/base/'' \<noteq> responseUrlOf emptyRefreshSpec
   \<and> loadPromise emptyRefreshWorld (htmlOf emptyRefreshSpec) (responseUrlOf emptyRefreshSpec)
       = Fulfilled (refreshPage ''http://s.test/base/'' ''0;'')
   \<and> loadSpecificationFromHtml emptyRefreshWorld emptyRefreshSpec None =
       (Fulfilled (refreshPage ''http://s.test/base/'' ''0;''), [])
   \<and> loadSpecificationFromUrl emptyRefreshWorld (Some ''http://s.test/base/'') (Some 1) =
       (Fulfilled (refreshPage ''http://s.test/base/'' ''0;''), [(Some ''http://s.test/base/'', 1)])"
  by (simp add: emptyRefreshWorld_def emptyRefreshSpec_def urlOf_def responseUrlOf_def htmlOf_def
        fromHtml_unfold fromUrl_unfold continueWith_def sample_simps)

section \<open>Single-page links\<close>

text \<open>
  Claim C5, amended. For a rendered document whose meta refresh is not followed, the
  first link of \<^verbatim>\<open>body .head dl a[href]\<close>, in document order, whose text contains
  "single page", "single file", "single-page" or "one-page" in any letter case decides:
  when its \<^verbatim>\<open>href\<close>, resolved against the base URI, is the requested URL or the response
  URL, the window is returned and nothing is fetched; otherwise the load is
  \<^verbatim>\<open>loadSpecificationFromUrl\<close> on the resolved target with the counter plus 1. Without
  such a link the window is returned.
\<close>

theorem singlePage_first_link:
  "loadPromise W (htmlOf spec) (responseUrlOf spec) = Fulfilled window \<Longrightarrow>
   metaRefreshTarget W (urlOf spec) (responseUrlOf spec) window = None \<Longrightarrow>
     (find isSinglePageLink (headLinks window) = None \<longrightarrow>
        loadSpecificationFromHtml W spec c = (Fulfilled window, []))
     \<and> (\<forall>link. find isSinglePageLink (headLinks window) = Some link \<longrightarrow>
          (URL_resolve W (baseURI window) (href_attr link) \<in> {urlOf spec, responseUrlOf spec} \<longrightarrow>
             loadSpecificationFromHtml W spec c = (Fulfilled window, []))
          \<and> (URL_resolve W (baseURI window) (href_attr link) \<notin> {urlOf spec, responseUrlOf spec} \<longrightarrow>
             loadSpecificationFromHtml W spec c =
               loadSpecificationFromUrl W
                 (Some (URL_resolve W (baseURI window) (href_attr link)))
                 (Some (counterOr0 c + 1))))
     \<and> (isSinglePageLink l \<longleftrightarrow>
          (\<exists>phrase a b. phrase \<in> {''single page'', ''single file'', ''single-page'', ''one-page''}
             \<and> toLowerCase (textContent l) = a @ phrase @ b))"
proof (intro conjI impI allI)
  assume p: "loadPromise W (htmlOf spec) (responseUrlOf spec) = Fulfilled window"
    and m: "metaRefreshTarget W (urlOf spec) (responseUrlOf spec) window = None"
  have step: "loadSpecificationFromHtml W spec c =
      continueWith W (case find isSinglePageLink (headLinks window) of
        None \<Rightarrow> Return window
      | Some link \<Rightarrow>
          (let singlePage = URL_resolve W (baseURI window) (href_attr link) in
           if singlePage = urlOf spec \<or> singlePage = responseUrlOf spec then Return window
           else LoadFromUrl singlePage (counterOr0 c + 1)))"
    using p m by (simp add: fromHtml_step onLoaded_def linksLoop_find isSinglePageLink_def[abs_def])
  {
    assume "find isSinglePageLink (headLinks window) = None"
    then show "loadSpecificationFromHtml W spec c = (Fulfilled window, [])"
      by (simp add: step continueWith_def)
  }
  {
    fix link
    assume f: "find isSinglePageLink (headLinks window) = Some link"
    {
      assume "URL_resolve W (baseURI window) (href_attr link) \<in> {urlOf spec, responseUrlOf spec}"
      with f show "loadSpecificationFromHtml W spec c = (Fulfilled window, [])"
        by (auto simp: step continueWith_def)
    }
    {
      assume "URL_resolve W (baseURI window) (href_attr link) \<notin> {urlOf spec, responseUrlOf spec}"
      with f show "loadSpecificationFromHtml W spec c =
               loadSpecificationFromUrl W
                 (Some (URL_resolve W (baseURI window) (href_attr link)))
                 (Some (counterOr0 c + 1))"
        by (auto simp: step continueWith_def)
    }
  }
next
  show "isSinglePageLink l \<longleftrightarrow>
          (\<exists>phrase a b. phrase \<in> {''single page'', ''single file'', ''single-page'', ''one-page''}
             \<and> toLowerCase (textContent l) = a @ phrase @ b)"
    unfolding isSinglePageLink_def isSinglePageText_def str_includes_iff by blast
qed


lemma editions_links:
  "find isSinglePageLink (headLinks multiPage) =
     Some \<lparr>textContent = ''Single page version'', href_attr = ''http://s.test/one.html''\<rparr>"
  "find isSinglePageLink (headLinks onePage) =
     Some \<lparr>textContent = ''Single Page'', href_attr = ''http://s.test/one.html''\<rparr>"
  "find isSinglePageLink (headLinks (plainWindow ''http://s.test/d'')) = None"
  "isSinglePageLink \<lparr>textContent = ''one-page per chapter'', href_attr = ''http://s.test/multi/''\<rparr>"
  by (simp_all add: multiPage_def onePage_def plainWindow_def isSinglePageLink_def
        isSinglePageText_def toLowerCase_def lowerChar_def startsWith_def char_of_def
        bit_Suc_0_iff)

lemma editions_load:
  "loadPromise editionsWorld (htmlOf multiSpec) (responseUrlOf multiSpec) = Fulfilled multiPage"
  "loadPromise editionsWorld (htmlOf oneSpec) (responseUrlOf oneSpec) = Fulfilled onePage"
  "loadPromise editionsWorld (htmlOf plainSpec) (responseUrlOf plainSpec) =
     Fulfilled (plainWindow ''http://s.test/d'')"
  "metaRefreshTarget editionsWorld (urlOf multiSpec) (responseUrlOf multiSpec) multiPage = None"
  "metaRefreshTarget editionsWorld (urlOf oneSpec) (responseUrlOf oneSpec) onePage = None"
  "metaRefreshTarget editionsWorld (urlOf plainSpec) (responseUrlOf plainSpec)
     (plainWindow ''http://s.test/d'') = None"
  by (simp_all add: editionsWorld_def multiSpec_def oneSpec_def plainSpec_def multiPage_def
        onePage_def htmlOf_def responseUrlOf_def urlOf_def sample_simps)

theorem singlePage_first_link_witness:
  "loadSpecificationFromHtml editionsWorld multiSpec None =
     loadSpecificationFromUrl editionsWorld (Some ''http://s.test/one.html'') (Some 1)
   \<and> loadSpecificationFromHtml editionsWorld oneSpec None = (Fulfilled onePage, [])
   \<and> loadSpecificationFromHtml editionsWorld plainSpec None =
       (Fulfilled (plainWindow ''http://s.test/d''), [])
   \<and> find isSinglePageLink (headLinks multiPage) =
       Some \<lparr>textContent = ''Single page version'', href_attr = ''http://s.test/one.html''\<rparr>
   \<and> find isSinglePageLink (headLinks onePage) =
       Some \<lparr>textContent = ''Single Page'', href_attr = ''http://s.test/one.html''\<rparr>
   \<and> find isSinglePageLink (headLinks (plainWindow ''http://s.test/d'')) = None"
proof -
  have a: "loadSpecificationFromHtml editionsWorld multiSpec None =
     loadSpecificationFromUrl editionsWorld (Some ''http://s.test/one.html'') (Some 1)"
    using singlePage_first_link[OF editions_load(1) editions_load(4), of None,
            THEN conjunct2, THEN conjunct1] editions_links(1)
    by (simp add: editionsWorld_def multiPage_def multiSpec_def urlOf_def responseUrlOf_def
          sample_simps)
  have b: "loadSpecificationFromHtml editionsWorld oneSpec None = (Fulfilled onePage, [])"
    using singlePage_first_link[OF editions_load(2) editions_load(5), of None,
            THEN conjunct2, THEN conjunct1] editions_links(2)
    by (simp add: editionsWorld_def onePage_def oneSpec_def urlOf_def responseUrlOf_def
          sample_simps)
  have c: "loadSpecificationFromHtml editionsWorld plainSpec None =
       (Fulfilled (plainWindow ''http://s.test/d''), [])"
    using singlePage_first_link[OF editions_load(3) editions_load(6), of None,
            THEN conjunct1] editions_links(3)
    by simp
  show ?thesis using a b c editions_links by simp
qed

text \<open>
  The claim as it was written holds of any matching link. In the multi-page edition the
  second link matches and resolves to the requested URL, yet the document is not
  returned: the first link matches too and names another URL, which is fetched.
\<close>

theorem singlePage_second_link_counterexample:
  "headLinks multiPage =
     [\<lparr>textContent = ''Single page version'', href_attr = ''http://s.test/one.html''\<rparr>,
      \<lparr>textContent = ''one-page per chapter'', href_attr = ''http://s.test/multi/''\<rparr>]
   \<and> isSinglePageLink \<lparr>textContent = ''one-page per chapter'', href_attr = ''http://s.test/multi/''\<rparr>
   \<and> URL_resolve editionsWorld (baseURI multiPage) ''http://s.test/multi/'' = urlOf multiSpec
   \<and> loadPromise editionsWorld (htmlOf multiSpec) (responseUrlOf multiSpec) = Fulfilled multiPage
   \<and> metaRefreshTarget editionsWorld (urlOf multiSpec) (responseUrlOf multiSpec) multiPage = None
   \<and> loadSpecificationFromHtml editionsWorld multiSpec None =
       (Fulfilled onePage, [(Some ''http://s.test/one.html'', 1)])"
proof -
  have find_eq: "find (\<lambda>l. isSinglePageText (toLowerCase (textContent l))) = find isSinglePageLink"
    by (simp add: isSinglePageLink_def[abs_def])
  have r: "URL_resolve editionsWorld b ''http://s.test/one.html'' = ''http://s.test/one.html''" for b
    by (simp add: editionsWorld_def siteWorld_def)
  have u: "urlOf multiSpec = ''http://s.test/multi/''" "responseUrlOf multiSpec = ''http://s.test/multi/''"
    by (simp_all add: multiSpec_def urlOf_def responseUrlOf_def orElse_def)
  have 1: "loadSpecificationFromHtml editionsWorld multiSpec None =
       loadSpecificationFromUrl editionsWorld (Some ''http://s.test/one.html'') (Some 1)"
    by (simp add: fromHtml_step editions_load)
       (simp add: onLoaded_def editions_load linksLoop_find find_eq editions_links
          continueWith_def r, simp add: u counterOr0_def)
  have p: "loadPromise editionsWorld [] ''http://s.test/one.html'' = Fulfilled onePage"
    using editions_load(2)
    by (simp add: editionsWorld_def oneSpec_def htmlOf_def responseUrlOf_def urlOf_def
          sample_simps)
  have f: "fetch editionsWorld (Some ''http://s.test/one.html'') =
       Fulfilled \<lparr>response_url = ''http://s.test/one.html'', response_text = []\<rparr>"
    by (simp add: editionsWorld_def siteWorld_def)
  have m: "metaRefreshTarget editionsWorld ''http://s.test/one.html'' ''http://s.test/one.html'' onePage = None"
    using editions_load(5) by (simp add: oneSpec_def urlOf_def responseUrlOf_def orElse_def)
  have 2: "loadSpecificationFromUrl editionsWorld (Some ''http://s.test/one.html'') (Some 1) =
       (Fulfilled onePage, [(Some ''http://s.test/one.html'', 1)])"
    by (subst fromUrl_unfold)
       (simp add: f p m orElse_def onLoaded_def linksLoop_find find_eq editions_links
          continueWith_def r)
  from 1 2 show ?thesis
    using editions_links(4) editions_load(1) editions_load(4)
    by (simp add: multiPage_def editionsWorld_def multiSpec_def urlOf_def sample_simps)
qed

section \<open>The byte-order mark\<close>

text \<open>
  Claim C8, amended. For raw markup whose first code unit is the byte-order mark U+FEFF
  and whose second is not, the load of \<^verbatim>\<open>loadSpecificationFromHtml\<close> is its load of the
  same markup without the mark: the same window, so the same text, and the same fetches.
\<close>

theorem dropBOM_once:
  "take 1 rest \<noteq> [0xFEFF] \<Longrightarrow>
     loadSpecificationFromHtml W (spec\<lparr>html := Some (0xFEFF # rest)\<rparr>) c =
     loadSpecificationFromHtml W (spec\<lparr>html := Some rest\<rparr>) c"
  by (rule fromHtml_same_markup) (cases rest; simp add: dropBOM_def)


theorem dropBOM_once_witness:
  "take 1 [0x61 :: 16 word] \<noteq> [0xFEFF]
   \<and> loadSpecificationFromHtml echoWorld ((rawSpec [])\<lparr>html := Some [0xFEFF, 0x61]\<rparr>) None =
       loadSpecificationFromHtml echoWorld ((rawSpec [])\<lparr>html := Some [0x61]\<rparr>) None
   \<and> loadSpecificationFromHtml echoWorld ((rawSpec [])\<lparr>html := Some [0x61]\<rparr>) None =
       (Fulfilled (echoPage [0x61]), [])"
proof -
  have a: "take 1 [0x61 :: 16 word] \<noteq> [0xFEFF]" by simp
  have b: "loadSpecificationFromHtml echoWorld ((rawSpec [])\<lparr>html := Some [0x61]\<rparr>) None =
       (Fulfilled (echoPage [0x61]), [])"
    by (simp add: fromHtml_unfold rawSpec_def echoWorld_def echoPage_def continueWith_def
          sample_simps)
  show ?thesis using dropBOM_once[OF a, of echoWorld "rawSpec []" None] a b by simp
qed

text \<open>
  The code drops one mark and no more. With markup that starts with two marks, a parser
  that keeps a mark as text shows the second mark in the document, and does not once the
  first mark has been removed beforehand. Through \<^verbatim>\<open>loadSpecification\<close>, whatever the
  parser, markup that is the mark alone is rendered, while the same markup without the
  mark is the empty string: the request then counts as having no markup and its URL is
  fetched.
\<close>

theorem dropBOM_twice_counterexample:
  "loadSpecificationFromHtml echoWorld (rawSpec [0xFEFF, 0xFEFF, 0x61]) None =
     (Fulfilled (echoPage [0xFEFF, 0x61]), [])
   \<and> loadSpecificationFromHtml echoWorld (rawSpec [0xFEFF, 0x61]) None =
     (Fulfilled (echoPage [0x61]), [])
   \<and> bodyText (echoPage [0xFEFF, 0x61]) \<noteq> bodyText (echoPage [0x61])
   \<and> loadSpecification echoWorld (Obj (rawSpec [0xFEFF])) = (Fulfilled (echoPage []), [])
   \<and> loadSpecification echoWorld (Obj (rawSpec [])) =
     (Rejected (Error ''fetch failed''), [(None, 0)])"
  by (simp add: loadSpecification_def loadSpecificationFromUrl.simps fromHtml_unfold rawSpec_def
        echoWorld_def echoPage_def continueWith_def sample_simps)

section \<open>The generator\<close>

text \<open>
  Claim C1, amended. \<^verbatim>\<open>getDocumentAndGenerator\<close> classifies a window by the first test
  that holds: the \<^verbatim>\<open>content\<close> of the meta element named generator contains "bikeshed" in
  any letter case: the promise is resolved with generator "bikeshed"; the id of the body
  is "respecDocument": "respec"; the window has a \<^verbatim>\<open>respecConfig\<close> and the head has a
  script whose \<^verbatim>\<open>src\<close> contains "respec": the promise stays pending, a hook is pushed
  on \<^verbatim>\<open>postProcess\<close>, and the promise is resolved with "respec" when that hook runs; an
  element with the id "anolis-references" exists: "anolis"; otherwise the promise is
  resolved with the document and no generator at all.
\<close>

theorem getDocumentAndGenerator_classification:
  "promise (getDocumentAndGenerator window) =
     (if isBikeshed window then Fulfilled \<lparr>doc = window, generator = Some ''bikeshed''\<rparr>
      else if bodyId window = ''respecDocument''
      then Fulfilled \<lparr>doc = window, generator = Some ''respec''\<rparr>
      else if usesRespec window then Pending
      else if anolisReferences window
      then Fulfilled \<lparr>doc = window, generator = Some ''anolis''\<rparr>
      else Fulfilled \<lparr>doc = window, generator = None\<rparr>)
   \<and> (\<not> isBikeshed window \<and> bodyId window \<noteq> ''respecDocument'' \<and> usesRespec window \<longrightarrow>
        (\<exists>config hooks. respecConfig (win (getDocumentAndGenerator window)) = Some config
           \<and> postProcess config = Some (hooks @ [GeneratorHook]))
        \<and> promise (hookFires (getDocumentAndGenerator window)) =
            Fulfilled \<lparr>doc = window, generator = Some ''respec''\<rparr>)
   \<and> (isBikeshed window \<longleftrightarrow>
        (\<exists>content a m b. metaGenerator window = Some content \<and> content = a @ m @ b
           \<and> map upperChar m = ''BIKESHED''))"
proof (intro conjI impI)
  show "promise (getDocumentAndGenerator window) =
     (if isBikeshed window then Fulfilled \<lparr>doc = window, generator = Some ''bikeshed''\<rparr>
      else if bodyId window = ''respecDocument''
      then Fulfilled \<lparr>doc = window, generator = Some ''respec''\<rparr>
      else if usesRespec window then Pending
      else if anolisReferences window
      then Fulfilled \<lparr>doc = window, generator = Some ''anolis''\<rparr>
      else Fulfilled \<lparr>doc = window, generator = None\<rparr>)"
    by (simp add: getDocumentAndGenerator_cases resolved_def)
next
  assume a: "\<not> isBikeshed window \<and> bodyId window \<noteq> ''respecDocument'' \<and> usesRespec window"
  then show "\<exists>config hooks. respecConfig (win (getDocumentAndGenerator window)) = Some config
           \<and> postProcess config = Some (hooks @ [GeneratorHook])"
    by (simp add: getDocumentAndGenerator_cases)
  from a show "promise (hookFires (getDocumentAndGenerator window)) =
            Fulfilled \<lparr>doc = window, generator = Some ''respec''\<rparr>"
    by (simp add: getDocumentAndGenerator_cases hookFires_def settle_def)
next
  show "isBikeshed window \<longleftrightarrow>
        (\<exists>content a m b. metaGenerator window = Some content \<and> content = a @ m @ b
           \<and> map upperChar m = ''BIKESHED'')"
  proof (cases "metaGenerator window")
    case None
    then show ?thesis by (simp add: isBikeshed_def)
  next
    case (Some content)
    have "regex_test [LitI ''bikeshed''] content \<longleftrightarrow>
        (\<exists>a m b. content = a @ m @ b \<and> map upperChar m = ''BIKESHED'')"
      unfolding regex_test_LitI upper_bikeshed ..
    with Some show ?thesis by (simp add: isBikeshed_def bikeshed_rx_def)
  qed
qed


lemma bikeshedPage_isBikeshed: "isBikeshed bikeshedPage"
  by (simp add: isBikeshed_def bikeshedPage_def plainWindow_def bikeshed_rx_def regex_test_def
        matchAt_def upperChar_def char_of_def bit_Suc_0_iff)

lemma respecSource_usesRespec:
  "\<not> isBikeshed (respecSource ready)" "bodyId (respecSource ready) \<noteq> ''respecDocument''"
  "usesRespec (respecSource ready)"
  by (simp_all add: respecSource_def plainWindow_def isBikeshed_def usesRespec_def)

theorem getDocumentAndGenerator_classification_witness:
  "\<not> isBikeshed (respecSource neverReady)
   \<and> bodyId (respecSource neverReady) \<noteq> ''respecDocument''
   \<and> usesRespec (respecSource neverReady)
   \<and> promise (getDocumentAndGenerator (respecSource neverReady)) = Pending
   \<and> promise (hookFires (getDocumentAndGenerator (respecSource neverReady))) =
       Fulfilled \<lparr>doc = respecSource neverReady, generator = Some ''respec''\<rparr>
   \<and> isBikeshed bikeshedPage
   \<and> promise (getDocumentAndGenerator bikeshedPage) =
       Fulfilled \<lparr>doc = bikeshedPage, generator = Some ''bikeshed''\<rparr>"
  using getDocumentAndGenerator_classification[of "respecSource neverReady"]
    getDocumentAndGenerator_classification[of bikeshedPage]
    respecSource_usesRespec[of neverReady] bikeshedPage_isBikeshed
  by simp

text \<open>
  The claim as it was written names the generator "unknown" in the last case. The code
  resolves with \<^verbatim>\<open>{doc}\<close>, an object without a generator.
\<close>

theorem getDocumentAndGenerator_unknown_counterexample:
  "promise (getDocumentAndGenerator (plainWindow ''http://s.test/d'')) =
     Fulfilled \<lparr>doc = plainWindow ''http://s.test/d'', generator = None\<rparr>
   \<and> generator \<lparr>doc = plainWindow ''http://s.test/d'', generator = None\<rparr> \<noteq> Some ''unknown''"
  by (simp add: getDocumentAndGenerator_def resolved_def plainWindow_def)

section \<open>Waiting for ReSpec\<close>

text \<open>
  Claim C3, amended. Let JSDOM load the markup of a request into a window that has a
  \<^verbatim>\<open>respecConfig\<close> and a ReSpec script in its head. \<^verbatim>\<open>loadSpecificationFromHtml\<close> looks for
  \<^verbatim>\<open>document.respecIsReady\<close> at the \<^verbatim>\<open>load\<close> event and every 100 ms from then on, without
  a bound. When no poll finds it, the load never settles: no error is raised. When the
  poll at \<open>100 * n\<close> ms is the first to find it, the load has the fate of that promise:
  rejected with its error, pending with it, and when it is fulfilled the load goes on with
  the window (meta refresh, links). The load is settled only if some poll found the
  promise and the promise settled. The bound of 30 seconds is in
  \<^verbatim>\<open>getDocumentAndGenerator\<close> only: when the document has neither the Bikeshed generator
  nor the body id "respecDocument", its promise is pending after the call and a timer of
  30000 ms is set; it is resolved with "respec" at the time the hook runs if that is
  before 30000 ms, and rejected with the time-out error at 30000 ms otherwise.
\<close>

theorem respec_wait:
  "jsdom W (dropBOM (htmlOf spec)) (responseUrlOf spec) = Fulfilled window \<Longrightarrow>
   usesRespec window \<Longrightarrow>
     ((\<forall>n. respecIsReady window (100 * n) = None) \<longrightarrow>
        loadSpecificationFromHtml W spec c = (Pending, []))
     \<and> (\<forall>n r. respecIsReady window (100 * n) = Some r
              \<and> (\<forall>j<n. respecIsReady window (100 * j) = None) \<longrightarrow>
           loadSpecificationFromHtml W spec c =
             (case r of
                ReadyFulfilled \<Rightarrow>
                  continueWith W (onLoaded W (urlOf spec) (responseUrlOf spec) (counterOr0 c) window)
              | ReadyRejected e \<Rightarrow> (Rejected e, [])
              | ReadyPending \<Rightarrow> (Pending, [])))
     \<and> (fst (loadSpecificationFromHtml W spec c) \<noteq> Pending \<longrightarrow>
           (\<exists>n r. respecIsReady window (100 * n) = Some r \<and> r \<noteq> ReadyPending
              \<and> (\<forall>j<n. respecIsReady window (100 * j) = None)))
     \<and> (\<not> isBikeshed window \<and> bodyId window \<noteq> ''respecDocument'' \<longrightarrow>
          promise (getDocumentAndGenerator window) = Pending
          \<and> timer (getDocumentAndGenerator window) = Some 30000
          \<and> (\<forall>t<30000. settlesAt (getDocumentAndGenerator window) (Some t) =
                (t, Fulfilled \<lparr>doc = window, generator = Some ''respec''\<rparr>))
          \<and> (\<forall>t\<ge>30000. settlesAt (getDocumentAndGenerator window) (Some t) =
                (30000, Rejected timeoutError))
          \<and> settlesAt (getDocumentAndGenerator window) None = (30000, Rejected timeoutError))"
proof (intro conjI allI impI)
  assume js: "jsdom W (dropBOM (htmlOf spec)) (responseUrlOf spec) = Fulfilled window"
    and u: "usesRespec window"
  have lp1: "loadPromise W (htmlOf spec) (responseUrlOf spec) = Pending"
    if "\<forall>n. respecIsReady window (100 * n) = None"
  proof -
    from that have "resolveWhenReady window 0 = None"
      using resolveWhenReady_never[OF u, of 0] by simp
    with js show ?thesis by (simp add: loadPromise_def)
  qed
  have lp2: "loadPromise W (htmlOf spec) (responseUrlOf spec) = fate window r"
    if "respecIsReady window (100 * n) = Some r" "\<forall>j<n. respecIsReady window (100 * j) = None"
    for n r
  proof -
    from that have "resolveWhenReady window 0 = Some (fate window r)"
      using resolveWhenReady_first[OF u, of 0 n r] by simp
    with js show ?thesis by (simp add: loadPromise_def)
  qed
  have lp3: "\<exists>n r. respecIsReady window (100 * n) = Some r \<and> r \<noteq> ReadyPending
              \<and> (\<forall>j<n. respecIsReady window (100 * j) = None)"
    if np: "loadPromise W (htmlOf spec) (responseUrlOf spec) \<noteq> Pending"
  proof -
    from np js obtain p where p: "resolveWhenReady window 0 = Some p"
      and lp: "loadPromise W (htmlOf spec) (responseUrlOf spec) = p"
      by (auto simp: loadPromise_def split: option.splits)
    from resolveWhenReady_Some[OF p] u obtain n r where
      f: "respecIsReady window (100 * n) = Some r" "\<forall>j<n. respecIsReady window (100 * j) = None"
      "p = fate window r" by (auto simp: readyAfter_def)
    from np lp f(3) have "r \<noteq> ReadyPending" by (auto simp: fate_def)
    with f show ?thesis by blast
  qed
  {
    assume "\<forall>n. respecIsReady window (100 * n) = None"
    from lp1[OF this] show "loadSpecificationFromHtml W spec c = (Pending, [])"
      by (simp add: fromHtml_step)
  }
  {
    fix n r
    assume "respecIsReady window (100 * n) = Some r \<and> (\<forall>j<n. respecIsReady window (100 * j) = None)"
    then have "loadPromise W (htmlOf spec) (responseUrlOf spec) = fate window r"
      using lp2[of n r] by blast
    then show "loadSpecificationFromHtml W spec c =
             (case r of
                ReadyFulfilled \<Rightarrow>
                  continueWith W (onLoaded W (urlOf spec) (responseUrlOf spec) (counterOr0 c) window)
              | ReadyRejected e \<Rightarrow> (Rejected e, [])
              | ReadyPending \<Rightarrow> (Pending, []))"
      by (simp add: fromHtml_step fate_def split: ready.splits)
  }
  {
    assume "fst (loadSpecificationFromHtml W spec c) \<noteq> Pending"
    then have "loadPromise W (htmlOf spec) (responseUrlOf spec) \<noteq> Pending"
      by (auto simp: fromHtml_step)
    from lp3[OF this]
    show "\<exists>n r. respecIsReady window (100 * n) = Some r \<and> r \<noteq> ReadyPending
              \<and> (\<forall>j<n. respecIsReady window (100 * j) = None)" by blast
  }
  {
    assume a: "\<not> isBikeshed window \<and> bodyId window \<noteq> ''respecDocument''"
    with u show "promise (getDocumentAndGenerator window) = Pending"
      "timer (getDocumentAndGenerator window) = Some 30000"
      "settlesAt (getDocumentAndGenerator window) None = (30000, Rejected timeoutError)"
      by (simp_all add: getDocumentAndGenerator_cases settlesAt_def timerFires_def settle_def)
    {
      fix t :: nat assume "t < 30000"
      with a u show "settlesAt (getDocumentAndGenerator window) (Some t) =
                (t, Fulfilled \<lparr>doc = window, generator = Some ''respec''\<rparr>)"
        by (simp add: getDocumentAndGenerator_cases settlesAt_def hookFires_def settle_def)
    }
    {
      fix t :: nat assume "30000 \<le> t"
      with a u show "settlesAt (getDocumentAndGenerator window) (Some t) =
                (30000, Rejected timeoutError)"
        by (simp add: getDocumentAndGenerator_cases settlesAt_def hookFires_def timerFires_def
              settle_def)
    }
  }
qed

theorem respec_wait_witness:
  "usesRespec (respecSource (readyFrom 250))
   \<and> jsdom (siteWorld (\<lambda>r. respecSource (readyFrom 250))) (dropBOM (htmlOf plainSpec))
       (responseUrlOf plainSpec) = Fulfilled (respecSource (readyFrom 250))
   \<and> respecIsReady (respecSource (readyFrom 250)) 200 = None
   \<and> respecIsReady (respecSource (readyFrom 250)) 300 = Some ReadyFulfilled
   \<and> loadSpecificationFromHtml (siteWorld (\<lambda>r. respecSource (readyFrom 250))) plainSpec None =
       (Fulfilled (respecSource (readyFrom 250)), [])
   \<and> loadSpecificationFromHtml (siteWorld (\<lambda>r. respecSource neverReady)) plainSpec None =
       (Pending, [])
   \<and> settlesAt (getDocumentAndGenerator (respecSource neverReady)) (Some 1200) =
       (1200, Fulfilled \<lparr>doc = respecSource neverReady, generator = Some ''respec''\<rparr>)
   \<and> settlesAt (getDocumentAndGenerator (respecSource neverReady)) (Some 31000) =
       (30000, Rejected timeoutError)
   \<and> settlesAt (getDocumentAndGenerator (respecSource neverReady)) None =
       (30000, Rejected timeoutError)"
proof -
  have j3: "jsdom (siteWorld (\<lambda>r. respecSource (readyFrom 250))) (dropBOM (htmlOf plainSpec))
       (responseUrlOf plainSpec) = Fulfilled (respecSource (readyFrom 250))"
    and jn: "jsdom (siteWorld (\<lambda>r. respecSource neverReady)) (dropBOM (htmlOf plainSpec))
       (responseUrlOf plainSpec) = Fulfilled (respecSource neverReady)"
    by (simp_all add: siteWorld_def)
  note t3 = respec_wait[OF j3 respecSource_usesRespec(3), of None]
  note tn = respec_wait[OF jn respecSource_usesRespec(3), of None]
  have r3: "respecIsReady (respecSource (readyFrom 250)) (100 * 3) = Some ReadyFulfilled"
    "\<forall>j<3. respecIsReady (respecSource (readyFrom 250)) (100 * j) = None"
    "respecIsReady (respecSource (readyFrom 250)) 200 = None"
    "respecIsReady (respecSource (readyFrom 250)) 300 = Some ReadyFulfilled"
    by (simp_all add: respecSource_def readyFrom_def less_Suc_eq numeral_3_eq_3)
  have o: "continueWith (siteWorld (\<lambda>r. respecSource (readyFrom 250)))
             (onLoaded (siteWorld (\<lambda>r. respecSource (readyFrom 250))) (urlOf plainSpec)
                (responseUrlOf plainSpec) (counterOr0 None) (respecSource (readyFrom 250))) =
           (Fulfilled (respecSource (readyFrom 250)), [])"
    by (simp add: continueWith_def onLoaded_def metaRefreshTarget_def respecSource_def
          plainWindow_def)
  have a: "loadSpecificationFromHtml (siteWorld (\<lambda>r. respecSource (readyFrom 250))) plainSpec None =
       (Fulfilled (respecSource (readyFrom 250)), [])"
    using t3[THEN conjunct2, THEN conjunct1, rule_format, of 3 ReadyFulfilled] r3(1,2) o by simp
  have n: "\<forall>n. respecIsReady (respecSource neverReady) (100 * n) = None"
    by (simp add: respecSource_def neverReady_def)
  have c: "loadSpecificationFromHtml (siteWorld (\<lambda>r. respecSource neverReady)) plainSpec None =
       (Pending, [])"
    using tn[THEN conjunct1] n by simp
  have d: "settlesAt (getDocumentAndGenerator (respecSource neverReady)) (Some 1200) =
       (1200, Fulfilled \<lparr>doc = respecSource neverReady, generator = Some ''respec''\<rparr>)"
    "settlesAt (getDocumentAndGenerator (respecSource neverReady)) (Some 31000) =
       (30000, Rejected timeoutError)"
    "settlesAt (getDocumentAndGenerator (respecSource neverReady)) None =
       (30000, Rejected timeoutError)"
    using tn[THEN conjunct2, THEN conjunct2, THEN conjunct2] respecSource_usesRespec[of neverReady]
    by simp_all
  show ?thesis using a c d j3 r3(3,4) respecSource_usesRespec(3) by simp
qed

text \<open>
  The claim as it was written has the resolution reject with a time-out error after 30
  seconds when no signal ever comes. The load of a ReSpec source whose
  \<^verbatim>\<open>respecIsReady\<close> never comes into being never settles: no error is raised, at 30
  seconds or at any time.
\<close>

theorem respec_never_ready_counterexample:
  "usesRespec (respecSource neverReady)
   \<and> loadSpecificationFromHtml (siteWorld (\<lambda>r. respecSource neverReady)) plainSpec None =
       (Pending, [])
   \<and> fst (loadSpecificationFromHtml (siteWorld (\<lambda>r. respecSource neverReady)) plainSpec None)
       \<noteq> Rejected timeoutError"
proof -
  have "resolveWhenReady (respecSource neverReady) 0 = None"
    by (rule resolveWhenReady_never[OF respecSource_usesRespec(3)])
       (simp add: respecSource_def neverReady_def)
  then have "loadSpecificationFromHtml (siteWorld (\<lambda>r. respecSource neverReady)) plainSpec None =
       (Pending, [])"
    by (simp add: fromHtml_unfold loadPromise_def siteWorld_def Let_def)
  then show ?thesis using respecSource_usesRespec(3) by simp
qed

section \<open>The matcher and the replacements\<close>


lemma matches_Lit_Cons:
  "matches (Lit l # as) s \<noteq> [] \<longleftrightarrow> (\<exists>b. s = l @ b \<and> matches as b \<noteq> [])"
  by (auto simp: startsWith_iff)

lemma matches_LitI_Cons:
  "matches (LitI l # as) s \<noteq> [] \<longleftrightarrow>
     (\<exists>m b. s = m @ b \<and> map upperChar m = map upperChar l \<and> matches as b \<noteq> [])"
proof
  assume "matches (LitI l # as) s \<noteq> []"
  then have "length l \<le> length s" "map upperChar (take (length l) s) = map upperChar l"
    "matches as (drop (length l) s) \<noteq> []"
    by (auto split: if_splits)
  then have "s = take (length l) s @ drop (length l) s \<and>
     map upperChar (take (length l) s) = map upperChar l \<and> matches as (drop (length l) s) \<noteq> []"
    by simp
  then show "\<exists>m b. s = m @ b \<and> map upperChar m = map upperChar l \<and> matches as b \<noteq> []"
    by blast
next
  assume "\<exists>m b. s = m @ b \<and> map upperChar m = map upperChar l \<and> matches as b \<noteq> []"
  then obtain m b where s: "s = m @ b" and m: "map upperChar m = map upperChar l"
    and r: "matches as b \<noteq> []" by blast
  from m have "length m = length l" by (metis length_map)
  with s m r show "matches (LitI l # as) s \<noteq> []" by simp
qed

lemma matches_Cls_Cons:
  "matches (Cls P # as) s \<noteq> [] \<longleftrightarrow> (\<exists>c b. s = c # b \<and> P c \<and> matches as b \<noteq> [])"
  by (cases s) auto

lemma matches_Eol_Cons:
  "matches (Eol # as) s \<noteq> [] \<longleftrightarrow> s = [] \<and> matches as [] \<noteq> []"
  by auto

lemma le_length_takeWhile:
  "k \<le> length (takeWhile P s) \<longleftrightarrow> k \<le> length s \<and> (\<forall>c\<in>set (take k s). P c)"
proof (induction s arbitrary: k)
  case Nil
  then show ?case by simp
next
  case (Cons x s)
  show ?case
  proof (cases k)
    case 0
    then show ?thesis by simp
  next
    case (Suc k')
    with Cons[of k'] show ?thesis by auto
  qed
qed

lemma matches_Rep_Cons:
  "matches (Rep P n g # as) s \<noteq> [] \<longleftrightarrow>
     (\<exists>m b. s = m @ b \<and> n \<le> length m \<and> (\<forall>c\<in>set m. P c) \<and> matches as b \<noteq> [])"
proof -
  let ?M = "length (takeWhile P s)"
  have "matches (Rep P n g # as) s \<noteq> [] \<longleftrightarrow> (\<exists>k\<in>{n ..< Suc ?M}. matches as (drop k s) \<noteq> [])"
    by (auto simp: Let_def)
  also have "\<dots> \<longleftrightarrow> (\<exists>m b. s = m @ b \<and> n \<le> length m \<and> (\<forall>c\<in>set m. P c) \<and> matches as b \<noteq> [])"
  proof
    assume "\<exists>k\<in>{n ..< Suc ?M}. matches as (drop k s) \<noteq> []"
    then obtain k where k: "n \<le> k" "k \<le> ?M" and r: "matches as (drop k s) \<noteq> []" by auto
    from k(2) have "k \<le> length s" "\<forall>c\<in>set (take k s). P c"
      unfolding le_length_takeWhile by auto
    with k r have "s = take k s @ drop k s \<and> n \<le> length (take k s) \<and>
      (\<forall>c\<in>set (take k s). P c) \<and> matches as (drop k s) \<noteq> []" by simp
    then show "\<exists>m b. s = m @ b \<and> n \<le> length m \<and> (\<forall>c\<in>set m. P c) \<and> matches as b \<noteq> []"
      by blast
  next
    assume "\<exists>m b. s = m @ b \<and> n \<le> length m \<and> (\<forall>c\<in>set m. P c) \<and> matches as b \<noteq> []"
    then obtain m b where s: "s = m @ b" and n: "n \<le> length m" and p: "\<forall>c\<in>set m. P c"
      and r: "matches as b \<noteq> []" by blast
    from s p have "length m \<le> ?M" unfolding le_length_takeWhile by simp
    with n s r have "length m \<in> {n ..< Suc ?M} \<and> matches as (drop (length m) s) \<noteq> []" by simp
    then show "\<exists>k\<in>{n ..< Suc ?M}. matches as (drop k s) \<noteq> []" by blast
  qed
  finally show ?thesis .
qed

lemma matches_Nil: "matches [] s \<noteq> []"
  by simp

lemmas matches_iff = matches_Lit_Cons matches_LitI_Cons matches_Cls_Cons matches_Eol_Cons
  matches_Rep_Cons matches_Nil













lemma search_at:
  assumes "\<forall>i<length pre. matchAt rx (drop i (pre @ t)) = None" "matchAt rx t = Some r"
  shows "search rx (pre @ t) = Some (pre, r)"
  using assms
proof (induction pre)
  case Nil
  then show ?case by (cases t) simp_all
next
  case (Cons c pre)
  from Cons.prems(1) have 0: "matchAt rx (c # pre @ t) = None" by force
  have "\<forall>i<length pre. matchAt rx (drop i (pre @ t)) = None"
  proof (intro allI impI)
    fix i assume "i < length pre"
    then have "Suc i < length (c # pre)" by simp
    from Cons.prems(1)[rule_format, OF this] show "matchAt rx (drop i (pre @ t)) = None" by simp
  qed
  from Cons.IH[OF this Cons.prems(2)] 0 show ?case by simp
qed

lemma concat_map_single:
  assumes "\<forall>x\<in>set as. f x = []"
  shows "concat (map f (as @ a # bs)) = f a @ concat (map f bs)"
  using assms by (induction as) simp_all

lemma upt_split: "n \<le> k \<Longrightarrow> k \<le> m \<Longrightarrow> [n ..< Suc m] = [n ..< k] @ k # [Suc k ..< Suc m]"
proof -
  assume a: "n \<le> k" "k \<le> m"
  then have "[n ..< Suc m] = [n ..< k] @ [k ..< Suc m]"
    by (metis le_SucI upt_add_eq_append le_Suc_ex)
  moreover have "[k ..< Suc m] = k # [Suc k ..< Suc m]"
    using a(2) by (simp add: upt_conv_Cons)
  ultimately show ?thesis by simp
qed

lemma takeWhile_all_then:
  "\<forall>c\<in>set w. P c \<Longrightarrow> takeWhile P (w @ r) = w @ takeWhile P r"
  by (induction w) simp_all

text \<open>A lazy quantifier before a literal: the first way to match is the shortest.\<close>

lemma matches_lazy_Lit:
  assumes n: "name \<noteq> []" and p: "\<forall>c\<in>set name. P c"
    and e: "\<forall>k. 1 \<le> k \<and> k < length name \<longrightarrow> \<not> startsWith (drop k (name @ l @ post)) l"
  shows "\<exists>rs. matches [Rep P 1 False, Lit l] (name @ l @ post) = post # rs"
proof -
  let ?s = "name @ l @ post"
  let ?m = "length (takeWhile P ?s)"
  let ?f = "\<lambda>k. matches [Lit l] (drop k ?s)"
  have m: "length name \<le> ?m" using p by (simp add: takeWhile_all_then)
  have 1: "1 \<le> length name" using n by (simp add: Suc_le_eq)
  have "matches [Rep P 1 False, Lit l] ?s = concat (map ?f [1 ..< Suc ?m])"
    by (simp add: Let_def)
  also have "[1 ..< Suc ?m] = [1 ..< length name] @ length name # [Suc (length name) ..< Suc ?m]"
    using upt_split[OF 1 m] .
  also have "concat (map ?f \<dots>) = ?f (length name) @ concat (map ?f [Suc (length name) ..< Suc ?m])"
  proof (rule concat_map_single)
    show "\<forall>x\<in>set [1 ..< length name]. ?f x = []"
      using e by auto
  qed
  also have "?f (length name) = [post]" by (simp add: startsWith_iff)
  finally show ?thesis by simp
qed

lemma matchAt_lazy:
  assumes "name \<noteq> []" "\<forall>c\<in>set name. P c"
    "\<forall>k. 1 \<le> k \<and> k < length name \<longrightarrow> \<not> startsWith (drop k (name @ l @ post)) l"
  shows "matchAt [Lit h, Rep P 1 False, Lit l] (h @ name @ l @ post) = Some post"
proof -
  from matches_lazy_Lit[OF assms] obtain rs where
    "matches [Rep P 1 False, Lit l] (name @ l @ post) = post # rs" by blast
  then show ?thesis by (simp add: matchAt_def startsWith_iff)
qed

lemma replace_lazy:
  assumes "\<forall>i<length pre. matchAt [Lit h, Rep P 1 False, Lit l] (drop i (pre @ h @ name @ l @ post)) = None"
    "name \<noteq> []" "\<forall>c\<in>set name. P c"
    "\<forall>k. 1 \<le> k \<and> k < length name \<longrightarrow> \<not> startsWith (drop k (name @ l @ post)) l"
  shows "replace [Lit h, Rep P 1 False, Lit l] rep (pre @ h @ name @ l @ post) = pre @ rep @ post"
  using search_at[OF assms(1) matchAt_lazy[OF assms(2-4)]] by (simp add: replace_def)

lemma isSpace_space: "isSpace CHR '' ''"
  by (simp add: isSpace_def)

lemma keyframes_replace:
  assumes "\<forall>i<length pre. matchAt keyframes_rx (drop i (pre @ ''@keyframes '' @ name @ '' {'' @ post)) = None"
    "name \<noteq> []" "\<forall>c\<in>set name. \<not> isSpace c"
  shows "replace keyframes_rx rep (pre @ ''@keyframes '' @ name @ '' {'' @ post) = pre @ rep @ post"
  unfolding keyframes_rx_def
proof (rule replace_lazy[OF assms(1)[unfolded keyframes_rx_def] assms(2) assms(3)], intro allI impI)
  fix k assume k: "1 \<le> k \<and> k < length name"
  then have "drop k (name @ '' {'' @ post) = name ! k # drop (Suc k) name @ '' {'' @ post"
    by (simp add: Cons_nth_drop_Suc)
  moreover have "\<not> isSpace (name ! k)" using assms(3) k by simp
  ultimately show "\<not> startsWith (drop k (name @ '' {'' @ post)) '' {''"
    using isSpace_space by (auto simp: startsWith_iff)
qed

lemma supports_replace:
  assumes "\<forall>i<length pre. matchAt supports_rx (drop i (pre @ ''@supports ('' @ cond @ '') {'' @ post)) = None"
    "cond \<noteq> []" "\<forall>c\<in>set cond. \<not> isLineTerminator c"
    "\<forall>k. 1 \<le> k \<and> k < length cond \<longrightarrow> \<not> startsWith (drop k (cond @ '') {'' @ post)) '') {''"
  shows "replace supports_rx rep (pre @ ''@supports ('' @ cond @ '') {'' @ post) = pre @ rep @ post"
  unfolding supports_rx_def
  by (rule replace_lazy[OF assms(1)[unfolded supports_rx_def] assms(2) assms(3) assms(4)])

lemma replaceAll_copied_prefix:
  "rep = p0 # bt \<Longrightarrow> p0 \<notin> set x \<Longrightarrow> replaceAll pat rep s = x @ r \<Longrightarrow> \<exists>r'. s = x @ r'"
proof (induction pat rep s arbitrary: x r rule: replaceAll.induct)
  case (1 pat rep)
  then show ?case by simp
next
  case (2 pat rep c s)
  show ?case
  proof (cases x)
    case Nil
    then show ?thesis by simp
  next
    case (Cons x0 x')
    show ?thesis
    proof (cases "pat \<noteq> [] \<and> startsWith (c # s) pat")
      case True
      with "2.prems"(1,3) Cons have "x0 = p0" by simp
      with Cons "2.prems"(2) show ?thesis by simp
    next
      case False
      with "2.prems"(3) Cons have c: "x0 = c" and r: "replaceAll pat rep s = x' @ r" by auto
      from Cons "2.prems"(2) have "p0 \<notin> set x'" by simp
      from "2.IH"(2)[OF False "2.prems"(1) this r] obtain r' where "s = x' @ r'" by blast
      with c Cons show ?thesis by simp
    qed
  qed
qed

lemma str_includes_append_cases:
  assumes "str_includes (a @ b) q"
  shows "str_includes b q \<or> (\<exists>i<length a. startsWith (drop i (a @ b)) q)"
  using assms
proof (induction a)
  case Nil
  then show ?case by simp
next
  case (Cons x a)
  from Cons.prems consider "startsWith (x # a @ b) q" | "str_includes (a @ b) q" by auto
  then show ?case
  proof cases
    case 1
    then have "0 < length (x # a) \<and> startsWith (drop 0 ((x # a) @ b)) q" by simp
    then show ?thesis by blast
  next
    case 2
    from Cons.IH[OF this] show ?thesis
    proof
      assume "str_includes b q" then show ?thesis ..
    next
      assume "\<exists>i<length a. startsWith (drop i (a @ b)) q"
      then obtain i where "i < length a" "startsWith (drop i (a @ b)) q" by blast
      then have "Suc i < length (x # a) \<and> startsWith (drop (Suc i) ((x # a) @ b)) q" by simp
      then show ?thesis by blast
    qed
  qed
qed

lemma str_includes_drop: "str_includes (drop n s) q \<Longrightarrow> str_includes s q"
  unfolding str_includes_iff by (metis append_take_drop_id append_assoc)

lemma str_includes_Cons: "str_includes s q \<Longrightarrow> str_includes (c # s) q"
  by simp

text \<open>After a global replacement no occurrence of \<open>q\<close> is new, when \<open>q\<close> cannot start
  inside the replacement text and has no character that starts it.\<close>

lemma replaceAll_occurrence:
  "rep = p0 # bt \<Longrightarrow> p0 \<notin> set q \<Longrightarrow>
   \<forall>i R. i < length rep \<longrightarrow> \<not> startsWith (drop i (rep @ R)) q \<Longrightarrow>
   str_includes (replaceAll pat rep s) q \<Longrightarrow> str_includes s q"
proof (induction pat rep s rule: replaceAll.induct)
  case (1 pat rep)
  then show ?case by simp
next
  case (2 pat rep c s)
  show ?case
  proof (cases "pat \<noteq> [] \<and> startsWith (c # s) pat")
    case True
    let ?R = "replaceAll pat rep (drop (length pat) (c # s))"
    from True "2.prems"(4) have "str_includes (rep @ ?R) q" by simp
    from str_includes_append_cases[OF this] "2.prems"(3) have "str_includes ?R q" by blast
    from "2.IH"(1)[OF True "2.prems"(1,2,3) this] show ?thesis by (rule str_includes_drop)
  next
    case False
    let ?R = "replaceAll pat rep s"
    from False have out: "replaceAll pat rep (c # s) = c # ?R" by auto
    with "2.prems"(4) consider "startsWith (c # ?R) q" | "str_includes ?R q" by auto
    then show ?thesis
    proof cases
      case 1
      then obtain r where "replaceAll pat rep (c # s) = q @ r"
        unfolding out startsWith_iff by blast
      from replaceAll_copied_prefix[OF "2.prems"(1,2) this] show ?thesis
        unfolding str_includes_iff by (metis append_Nil)
    next
      case 2
      from "2.IH"(2)[OF False "2.prems"(1,2,3) this] show ?thesis by simp
    qed
  qed
qed

text \<open>After a global replacement no occurrence of the pattern is left, when the first
  character of the pattern and of the replacement is the same, occurs nowhere else in
  them, and the replacement does not start with the pattern.\<close>

lemma replaceAll_removes:
  "pat = p0 # pt \<Longrightarrow> p0 \<notin> set pt \<Longrightarrow> rep = p0 # bt \<Longrightarrow> p0 \<notin> set bt \<Longrightarrow>
   \<forall>R. \<not> startsWith (rep @ R) pat \<Longrightarrow>
   \<not> str_includes (replaceAll pat rep s) pat"
proof (induction pat rep s rule: replaceAll.induct)
  case (1 pat rep)
  then show ?case by simp
next
  case (2 pat rep c s)
  show ?case
  proof (cases "pat \<noteq> [] \<and> startsWith (c # s) pat")
    case True
    let ?R = "replaceAll pat rep (drop (length pat) (c # s))"
    have ih: "\<not> str_includes ?R pat" by (rule "2.IH"(1)[OF True "2.prems"])
    have "\<not> (\<exists>i<length rep. startsWith (drop i (rep @ ?R)) pat)"
    proof
      assume "\<exists>i<length rep. startsWith (drop i (rep @ ?R)) pat"
      then obtain i where i: "i < length rep" and st: "startsWith (drop i (rep @ ?R)) pat" by blast
      show False
      proof (cases i)
        case 0
        with st "2.prems"(5) show False by simp
      next
        case (Suc j)
        with i "2.prems"(3) have j: "j < length bt" by simp
        from Suc st "2.prems"(3) j have "startsWith (drop j bt @ ?R) pat" by simp
        then obtain b where "drop j bt @ ?R = p0 # pt @ b"
          unfolding startsWith_iff using "2.prems"(1) by auto
        moreover from j have "drop j bt = bt ! j # drop (Suc j) bt" by (simp add: Cons_nth_drop_Suc)
        ultimately have "bt ! j = p0" by simp
        with j "2.prems"(4) show False by (metis nth_mem)
      qed
    qed
    with ih str_includes_append_cases[of rep ?R pat] True show ?thesis by auto
  next
    case False
    let ?R = "replaceAll pat rep s"
    from False have out: "replaceAll pat rep (c # s) = c # ?R" by auto
    have ih: "\<not> str_includes ?R pat" by (rule "2.IH"(2)[OF False "2.prems"])
    have "\<not> startsWith (c # ?R) pat"
    proof
      assume "startsWith (c # ?R) pat"
      then obtain r where r: "c # ?R = p0 # pt @ r"
        unfolding startsWith_iff using "2.prems"(1) by auto
      then have "?R = pt @ r" and c: "c = p0" by simp_all
      from replaceAll_copied_prefix[OF "2.prems"(3,2) this(1)] obtain r' where "s = pt @ r'" by blast
      with c "2.prems"(1) have "startsWith (c # s) pat" unfolding startsWith_iff by simp
      with False "2.prems"(1) show False by simp
    qed
    with ih show ?thesis unfolding out by simp
  qed
qed

lemma innerText_removed:
  "\<not> str_includes (replaceAll ''.innerText='' ''.textContent='' s) ''.innerText=''"
  by (rule replaceAll_removes[where ?p0.0 = "CHR ''.''" and pt = "''innerText=''"
        and bt = "''textContent=''"]) (simp_all add: startsWith_def)

lemma bodyInnerText_removed:
  "\<not> str_includes (replaceAll ''body.innerText'' ''body.textContent'' s) ''body.innerText''"
  by (rule replaceAll_removes[where ?p0.0 = "CHR ''b''" and pt = "''ody.innerText''"
        and bt = "''ody.textContent''"]) (simp_all add: startsWith_def)

lemma concat_map_empty: "\<forall>x\<in>set xs. f x = [] \<Longrightarrow> concat (map f xs) = []"
  by (induction xs) simp_all

text \<open>A run of the class before a literal that does not start in the class: every way
  to match takes the whole run.\<close>

lemma matches_Rep0_Lit:
  assumes w: "\<forall>c\<in>set w. P c" and l: "l \<noteq> []" "\<not> P (hd l)"
  shows "matches (Rep P 0 g # Lit l # as) (w @ l @ rest) = matches as rest"
proof -
  let ?s = "w @ l @ rest"
  let ?f = "\<lambda>k. matches (Lit l # as) (drop k ?s)"
  from l obtain l0 l' where ll: "l = l0 # l'" and l0: "\<not> P l0" by (cases l) auto
  have m: "length (takeWhile P ?s) = length w"
    using w l0 by (simp add: takeWhile_all_then ll)
  have e: "\<forall>k\<in>set [0 ..< length w]. ?f k = []"
  proof
    fix k assume "k \<in> set [0 ..< length w]"
    then have k: "k < length w" by simp
    then have "drop k ?s = w ! k # drop (Suc k) w @ l @ rest" by (simp add: Cons_nth_drop_Suc)
    moreover have "P (w ! k)" using w k by simp
    ultimately have "\<not> startsWith (drop k ?s) l" using l0 by (auto simp: startsWith_iff ll)
    then show "?f k = []" by simp
  qed
  have n: "?f (length w) = matches as rest" by (simp add: startsWith_iff)
  have u: "[0 ..< Suc (length w)] = [0 ..< length w] @ [length w]" by simp
  have unf: "matches (Rep P 0 g # Lit l # as) ?s =
      concat (map ?f (if g then rev [0 ..< Suc (length w)] else [0 ..< Suc (length w)]))"
    by (subst matches.simps(5)) (simp only: Let_def m)
  have z: "concat (map ?f [0 ..< length w]) = []" "concat (map ?f (rev [0 ..< length w])) = []"
    using e by (simp_all only: concat_map_empty set_rev)
  show ?thesis
  proof (cases g)
    case True
    then have "matches (Rep P 0 g # Lit l # as) ?s =
        ?f (length w) @ concat (map ?f (rev [0 ..< length w]))"
      unfolding unf u by (simp del: matches.simps upt_Suc)
    then show ?thesis unfolding z n by simp
  next
    case False
    then have "matches (Rep P 0 g # Lit l # as) ?s =
        concat (map ?f [0 ..< length w]) @ ?f (length w)"
      unfolding unf u by (simp del: matches.simps upt_Suc)
    then show ?thesis unfolding z n by simp
  qed
qed

lemma matches_Lit_here: "matches (Lit l # as) (l @ rest) = matches as rest"
  by (simp add: startsWith_iff)

lemma matches_Rep_last:
  "matches [Rep Q n True] u = map (\<lambda>k. drop k u) (rev [n ..< Suc (length (takeWhile Q u))])"
  by (simp add: Let_def concat_map_singleton del: upt_Suc)

lemma replaceByGroup_at:
  assumes "\<forall>i<length pre. matches2 grp tail (drop i (pre @ t)) = []"
    "matches2 grp tail t = (r1, r2) # rs" "t \<noteq> []"
  shows "replaceByGroup grp tail (pre @ t) = pre @ take (length t - length r1) t @ r2"
  using assms
proof (induction pre)
  case Nil
  then show ?case by (cases t) simp_all
next
  case (Cons c pre)
  from Cons.prems(1) have 0: "matches2 grp tail (c # pre @ t) = []" by force
  have "\<forall>i<length pre. matches2 grp tail (drop i (pre @ t)) = []"
  proof (intro allI impI)
    fix i assume "i < length pre"
    then have "Suc i < length (c # pre)" by simp
    from Cons.prems(1)[rule_format, OF this] show "matches2 grp tail (drop i (pre @ t)) = []" by simp
  qed
  from Cons.IH[OF this Cons.prems(2,3)] 0 show ?case by simp
qed

lemma drop_nth_append: "j < length v \<Longrightarrow> drop j (v @ r) = v ! j # drop (Suc j) v @ r"
  by (simp add: Cons_nth_drop_Suc)

lemma nth_tail_mem: "1 \<le> j \<Longrightarrow> j < length (c # xs) \<Longrightarrow> (c # xs) ! j \<in> set xs"
  by (cases j) simp_all

lemma group_greedy:
  fixes sp Q :: "char \<Rightarrow> bool" and D P H w1 w2 w3 w4 deps post :: string
  assumes w: "\<forall>c\<in>set w1. sp c" "\<forall>c\<in>set w2. sp c" "\<forall>c\<in>set w3. sp c" "\<forall>c\<in>set w4. sp c"
    and heads: "P \<noteq> []" "\<not> sp (hd P)" "H \<noteq> []" "\<not> sp (hd H)" "\<not> sp CHR '',''" "\<not> sp CHR ''[''"
    and spQ: "\<forall>c. sp c \<longrightarrow> Q c"
    and HQ: "\<forall>c\<in>set H. Q c \<and> c \<noteq> CHR '',''" and commaQ: "Q CHR '',''"
    and deps: "deps \<noteq> []" "\<forall>c\<in>set deps. Q c"
    and later: "\<not> str_includes (takeWhile Q post) H"
  defines "grp \<equiv> [Lit D, Rep sp 0 True, Lit P, Rep sp 0 True, Lit '','', Rep sp 0 True,
                   Lit ''['', Rep Q 1 True]"
    and "tail \<equiv> [Lit '','', Rep sp 0 True, Lit H]"
    and "head \<equiv> D @ w1 @ P @ w2 @ '','' @ w3 @ ''[''"
  shows "\<exists>rs. matches2 grp tail (head @ deps @ '','' @ w4 @ H @ post) =
           ('','' @ w4 @ H @ post, post) # rs"
proof -
  let ?v = "'','' @ w4 @ H"
  let ?u = "deps @ ?v @ post"
  let ?k0 = "length deps"
  let ?m = "length (takeWhile Q ?u)"
  let ?g = "\<lambda>k. map (Pair (drop k ?u)) (matches tail (drop k ?u))"
  have vQ: "\<forall>c\<in>set ?v. Q c" using w(4) spQ HQ commaQ by auto
  have tw: "takeWhile Q ?u = deps @ ?v @ takeWhile Q post"
    using deps(2) vQ by (simp add: takeWhile_all_then del: append_assoc)
  have m: "?m = ?k0 + length ?v + length (takeWhile Q post)" unfolding tw by simp
  have grp: "matches grp (head @ ?u) = map (\<lambda>k. drop k ?u) (rev [1 ..< Suc ?m])"
  proof -
    have "matches grp (head @ ?u) =
        matches [Rep sp 0 True, Lit P, Rep sp 0 True, Lit '','', Rep sp 0 True, Lit ''['', Rep Q 1 True]
          (w1 @ P @ (w2 @ '','' @ w3 @ ''['' @ ?u))"
      unfolding grp_def head_def using matches_Lit_here[of D] by simp
    also have "\<dots> = matches [Rep sp 0 True, Lit '','', Rep sp 0 True, Lit ''['', Rep Q 1 True]
          (w2 @ '','' @ (w3 @ ''['' @ ?u))"
      by (rule matches_Rep0_Lit[OF w(1) heads(1,2)])
    also have "\<dots> = matches [Rep sp 0 True, Lit ''['', Rep Q 1 True] (w3 @ ''['' @ ?u)"
      by (rule matches_Rep0_Lit[OF w(2)]) (use heads in simp_all)
    also have "\<dots> = matches [Rep Q 1 True] ?u"
      by (rule matches_Rep0_Lit[OF w(3)]) (use heads in simp_all)
    also have "\<dots> = map (\<lambda>k. drop k ?u) (rev [1 ..< Suc ?m])"
      by (rule matches_Rep_last)
    finally show ?thesis .
  qed
  have here: "matches tail (drop ?k0 ?u) = [post]"
  proof -
    have "matches tail (?v @ post) = matches [Rep sp 0 True, Lit H] (w4 @ H @ post)"
      unfolding tail_def using matches_Lit_here[of "'',''"] by simp
    also have "\<dots> = matches [] post"
      by (rule matches_Rep0_Lit[OF w(4) heads(3,4)])
    finally show ?thesis by simp
  qed
  have none: "matches tail (drop k ?u) = []" if k: "?k0 < k" "k \<le> ?m" for k
  proof (rule ccontr)
    assume "matches tail (drop k ?u) \<noteq> []"
    then obtain ws b where d: "drop k ?u = '','' @ ws @ H @ b" and ws: "\<forall>c\<in>set ws. sp c"
      unfolding tail_def matches_iff by auto
    show False
    proof (cases "k < ?k0 + length ?v")
      case True
      let ?j = "k - ?k0"
      from k True have j: "1 \<le> ?j" "?j < length ?v" by simp_all
      have "drop k ?u = drop ?j (?v @ post)" using k by simp
      also have "\<dots> = ?v ! ?j # drop (Suc ?j) ?v @ post"
        using j(2) by (rule drop_nth_append)
      finally have "?v ! ?j = CHR '',''" using d by simp
      moreover have "?v ! ?j \<in> set (w4 @ H)"
        using nth_tail_mem[of ?j "CHR '',''" "w4 @ H"] j by simp
      ultimately show False using w(4) heads(5) HQ by auto
    next
      case False
      let ?j = "k - ?k0 - length ?v"
      from False k(2) m have j: "?j \<le> length (takeWhile Q post)" by simp
      have "drop k ((deps @ ?v) @ post) = drop (k - length (deps @ ?v)) post"
        using False by (simp del: append_assoc)
      then have "drop k ?u = drop ?j post" by simp
      with d have dp: "drop ?j post = '','' @ ws @ H @ b" by simp
      from j have q: "\<forall>c\<in>set (take ?j post). Q c" unfolding le_length_takeWhile by simp
      have "post = take ?j post @ '','' @ ws @ H @ b"
        using dp by (metis append_take_drop_id)
      then have "takeWhile Q post = takeWhile Q (take ?j post @ ('','' @ ws) @ H @ b)" by simp
      also have "\<dots> = take ?j post @ takeWhile Q (('','' @ ws) @ H @ b)"
        by (rule takeWhile_all_then[OF q])
      also have "takeWhile Q (('','' @ ws) @ H @ b) = ('','' @ ws) @ takeWhile Q (H @ b)"
        by (rule takeWhile_all_then) (use ws spQ commaQ in auto)
      also have "takeWhile Q (H @ b) = H @ takeWhile Q b"
        by (rule takeWhile_all_then) (use HQ in auto)
      finally have "takeWhile Q post = (take ?j post @ '','' @ ws) @ H @ takeWhile Q b" by simp
      then have "str_includes (takeWhile Q post) H" unfolding str_includes_iff by blast
      with later show False ..
    qed
  qed
  have k0pos: "1 \<le> ?k0" using deps(1) by (simp add: Suc_le_eq)
  have k0m: "?k0 \<le> ?m" using m by simp
  have "matches2 grp tail (head @ ?u) = concat (map ?g (rev [1 ..< Suc ?m]))"
    unfolding matches2_def grp by (simp add: comp_def del: upt_Suc)
  also have "rev [1 ..< Suc ?m] = rev [Suc ?k0 ..< Suc ?m] @ ?k0 # rev [1 ..< ?k0]"
    unfolding upt_split[OF k0pos k0m] by simp
  also have "concat (map ?g \<dots>) = ?g ?k0 @ concat (map ?g (rev [1 ..< ?k0]))"
    by (rule concat_map_single) (use none in auto)
  also have "?g ?k0 = [(?v @ post, post)]" unfolding here by simp
  finally show ?thesis by simp
qed

lemma highlight_rx_names:
  "highlight_group = [Lit ''define('', Rep isSpace 0 True, Lit profileName, Rep isSpace 0 True,
      Lit '','', Rep isSpace 0 True, Lit ''['', Rep (\<lambda>c. c \<noteq> CHR '']'') 1 True]"
  "highlight_tail = [Lit '','', Rep isSpace 0 True, Lit highlightName]"
  by (simp_all add: highlight_group_def highlight_tail_def profileName_def highlightName_def)

lemma names_facts:
  "profileName \<noteq> []" "\<not> isSpace (hd profileName)"
  "highlightName \<noteq> []" "\<not> isSpace (hd highlightName)"
  "\<not> isSpace CHR '',''" "\<not> isSpace CHR ''[''"
  "\<forall>c. isSpace c \<longrightarrow> c \<noteq> CHR '']''"
  "\<forall>c\<in>set highlightName. c \<noteq> CHR '']'' \<and> c \<noteq> CHR '',''"
  by (auto simp: profileName_def highlightName_def isSpace_def)

lemma highlight_removed:
  assumes early: "\<forall>i<length pre. matches2 highlight_group highlight_tail
          (drop i (pre @ (''define('' @ w1 @ profileName @ w2 @ '','' @ w3 @ ''['') @ deps @
                     '','' @ w4 @ highlightName @ post)) = []"
    and w: "\<forall>c\<in>set (w1 @ w2 @ w3 @ w4). isSpace c"
    and deps: "deps \<noteq> []" "CHR '']'' \<notin> set deps"
    and later: "\<not> str_includes (takeWhile (\<lambda>c. c \<noteq> CHR '']'') post) highlightName"
  shows "replaceByGroup highlight_group highlight_tail
           (pre @ (''define('' @ w1 @ profileName @ w2 @ '','' @ w3 @ ''['') @ deps @
              '','' @ w4 @ highlightName @ post) =
         pre @ (''define('' @ w1 @ profileName @ w2 @ '','' @ w3 @ ''['') @ deps @ post"
proof -
  let ?head = "''define('' @ w1 @ profileName @ w2 @ '','' @ w3 @ ''[''"
  let ?t = "?head @ deps @ '','' @ w4 @ highlightName @ post"
  from w have ws: "\<forall>c\<in>set w1. isSpace c" "\<forall>c\<in>set w2. isSpace c" "\<forall>c\<in>set w3. isSpace c"
    "\<forall>c\<in>set w4. isSpace c" by auto
  from deps(2) have dq: "\<forall>c\<in>set deps. c \<noteq> CHR '']''" by auto
  from group_greedy[of w1 isSpace w2 w3 w4 profileName highlightName "\<lambda>c. c \<noteq> CHR '']''" deps post
      "''define(''", OF ws names_facts(1-7) names_facts(8) _ deps(1) dq later]
  obtain rs where m: "matches2 highlight_group highlight_tail ?t =
      ('','' @ w4 @ highlightName @ post, post) # rs"
    unfolding highlight_rx_names by auto
  have ne: "?t \<noteq> []" by simp
  have "replaceByGroup highlight_group highlight_tail (pre @ ?t) =
      pre @ take (length ?t - length ('','' @ w4 @ highlightName @ post)) ?t @ post"
    by (rule replaceByGroup_at[OF early m ne])
  also have "take (length ?t - length ('','' @ w4 @ highlightName @ post)) ?t = ?head @ deps"
  proof -
    have "length ?t - length ('','' @ w4 @ highlightName @ post) = length (?head @ deps)" by simp
    moreover have "?t = (?head @ deps) @ ('','' @ w4 @ highlightName @ post)" by simp
    ultimately show ?thesis by (metis append_eq_conv_conj)
  qed
  finally show ?thesis by simp
qed

lemma textContent_no_innerText:
  "i < length ''body.textContent'' \<Longrightarrow> \<not> startsWith (drop i (''body.textContent'' @ R)) ''.innerText=''"
  by (auto simp: startsWith_def less_Suc_eq numeral_eq_Suc)

lemma tweakRespec_no_innerText:
  "\<not> str_includes (tweakRespec d) ''.innerText=''"
  "\<not> str_includes (tweakRespec d) ''body.innerText''"
proof -
  show "\<not> str_includes (tweakRespec d) ''body.innerText''"
    unfolding tweakRespec_def Let_def by (rule bodyInnerText_removed)
  show "\<not> str_includes (tweakRespec d) ''.innerText=''"
    unfolding tweakRespec_def Let_def
  proof
    let ?d4 = "replaceAll ''.innerText='' ''.textContent=''
      (replace supports_rx ''@media all {'' (replace keyframes_rx ''@media all {''
        (replaceByGroup highlight_group highlight_tail d)))"
    assume "str_includes (replaceAll ''body.innerText'' ''body.textContent'' ?d4) ''.innerText=''"
    then have "str_includes ?d4 ''.innerText=''"
      by (rule replaceAll_occurrence[where ?p0.0 = "CHR ''b''" and bt = "''ody.textContent''", rotated 3])
         (use textContent_no_innerText in simp_all)
    then show False using innerText_removed by simp
  qed
qed

lemma tweakRespec_sampleBody: "tweakRespec sampleBody = tweakedBody"
  by code_simp

lemma tweakRespec_highlightFirst: "tweakRespec highlightFirst = highlightFirst"
  by code_simp

lemma getUrlToFetch_respecVersioned: "getUrlToFetch respecVersioned specReferrer = Some respecUrl"
  by code_simp


lemma getUrlToFetch_localScript: "getUrlToFetch localScript specReferrer = Some ''http://s.test/specs/script.js''"
  by code_simp



lemma getUrlToFetch_dfnScript: "getUrlToFetch \<lparr>href = ''http://s.test/specs/dfn.js'', path = ''/specs/dfn.js'',
     pathname = ''/specs/dfn.js''\<rparr> specReferrer = None"
  by code_simp

lemma keyframes_not_before: "matchAt keyframes_rx ''a{@keyframes fade {}}'' = None"
  "matchAt keyframes_rx ''{@keyframes fade {}}'' = None"
  by code_simp+

lemma postSample_no_highlight: "\<not> str_includes (takeWhile (\<lambda>c. c \<noteq> CHR '']'') postSample) highlightName"
  by code_simp

section \<open>Which resources are fetched\<close>




section \<open>The patches to ReSpec\<close>

text \<open>
  What \<^verbatim>\<open>download\<close> hands to the callback: the fetched text unchanged, except when the
  URL fetched is the pinned URL of ReSpec. Then, and only then, it hands over the text
  after five replacements, in this order. The first expression matches in the definition
  of the profile an entry \<^verbatim>\<open>, "core/highlight"\<close> of the list of dependencies together
  with the entries before it, and removes that entry. The leftmost
  \<^verbatim>\<open>@keyframes name {\<close> and then the leftmost \<^verbatim>\<open>@supports (condition) {\<close> become
  \<^verbatim>\<open>@media all {\<close>. Every \<^verbatim>\<open>.innerText=\<close> becomes \<^verbatim>\<open>.textContent=\<close> and every
  \<^verbatim>\<open>body.innerText\<close> becomes \<^verbatim>\<open>body.textContent\<close>: neither is left in the result.
\<close>

lemma download_patches:
  "(getUrlToFetch u referrer = Some v \<and> v \<noteq> [] \<and> fetchText v = Fulfilled data \<longrightarrow>
      download fetchText u referrer =
        (Data (if v = respecUrl then tweakRespec data else data), [v]))
   \<and> tweakRespec data =
       replaceAll ''body.innerText'' ''body.textContent''
         (replaceAll ''.innerText='' ''.textContent=''
           (replace supports_rx ''@media all {''
             (replace keyframes_rx ''@media all {''
               (replaceByGroup highlight_group highlight_tail data))))
   \<and> ((\<forall>i<length pre. matches2 highlight_group highlight_tail
          (drop i (pre @ (''define('' @ w1 @ profileName @ w2 @ '','' @ w3 @ ''['') @ deps @
                     '','' @ w4 @ highlightName @ post)) = [])
        \<and> (\<forall>c\<in>set (w1 @ w2 @ w3 @ w4). isSpace c)
        \<and> deps \<noteq> [] \<and> CHR '']'' \<notin> set deps
        \<and> \<not> str_includes (takeWhile (\<lambda>c. c \<noteq> CHR '']'') post) highlightName
      \<longrightarrow> replaceByGroup highlight_group highlight_tail
           (pre @ (''define('' @ w1 @ profileName @ w2 @ '','' @ w3 @ ''['') @ deps @
              '','' @ w4 @ highlightName @ post) =
         pre @ (''define('' @ w1 @ profileName @ w2 @ '','' @ w3 @ ''['') @ deps @ post)
   \<and> ((\<forall>i<length pre'. matchAt keyframes_rx
            (drop i (pre' @ ''@keyframes '' @ name @ '' {'' @ post')) = None)
        \<and> name \<noteq> [] \<and> (\<forall>c\<in>set name. \<not> isSpace c)
      \<longrightarrow> replace keyframes_rx ''@media all {'' (pre' @ ''@keyframes '' @ name @ '' {'' @ post') =
            pre' @ ''@media all {'' @ post')
   \<and> ((\<forall>i<length pre'. matchAt supports_rx
            (drop i (pre' @ ''@supports ('' @ cond @ '') {'' @ post')) = None)
        \<and> cond \<noteq> [] \<and> (\<forall>c\<in>set cond. \<not> isLineTerminator c)
        \<and> (\<forall>k. 1 \<le> k \<and> k < length cond \<longrightarrow>
               \<not> startsWith (drop k (cond @ '') {'' @ post')) '') {'')
      \<longrightarrow> replace supports_rx ''@media all {'' (pre' @ ''@supports ('' @ cond @ '') {'' @ post') =
            pre' @ ''@media all {'' @ post')
   \<and> \<not> str_includes (tweakRespec data) ''.innerText=''
   \<and> \<not> str_includes (tweakRespec data) ''body.innerText''"
proof (intro conjI impI)
  assume "getUrlToFetch u referrer = Some v \<and> v \<noteq> [] \<and> fetchText v = Fulfilled data"
  then show "download fetchText u referrer =
        (Data (if v = respecUrl then tweakRespec data else data), [v])"
    by (simp add: download_def)
next
  show "tweakRespec data =
       replaceAll ''body.innerText'' ''body.textContent''
         (replaceAll ''.innerText='' ''.textContent=''
           (replace supports_rx ''@media all {''
             (replace keyframes_rx ''@media all {''
               (replaceByGroup highlight_group highlight_tail data))))"
    by (simp add: tweakRespec_def Let_def)
next
  assume "(\<forall>i<length pre. matches2 highlight_group highlight_tail
          (drop i (pre @ (''define('' @ w1 @ profileName @ w2 @ '','' @ w3 @ ''['') @ deps @
                     '','' @ w4 @ highlightName @ post)) = [])
        \<and> (\<forall>c\<in>set (w1 @ w2 @ w3 @ w4). isSpace c)
        \<and> deps \<noteq> [] \<and> CHR '']'' \<notin> set deps
        \<and> \<not> str_includes (takeWhile (\<lambda>c. c \<noteq> CHR '']'') post) highlightName"
  then show "replaceByGroup highlight_group highlight_tail
           (pre @ (''define('' @ w1 @ profileName @ w2 @ '','' @ w3 @ ''['') @ deps @
              '','' @ w4 @ highlightName @ post) =
         pre @ (''define('' @ w1 @ profileName @ w2 @ '','' @ w3 @ ''['') @ deps @ post"
    using highlight_removed[of pre w1 w2 w3 deps w4 post] by blast
next
  assume "(\<forall>i<length pre'. matchAt keyframes_rx
            (drop i (pre' @ ''@keyframes '' @ name @ '' {'' @ post')) = None)
        \<and> name \<noteq> [] \<and> (\<forall>c\<in>set name. \<not> isSpace c)"
  then show "replace keyframes_rx ''@media all {'' (pre' @ ''@keyframes '' @ name @ '' {'' @ post') =
            pre' @ ''@media all {'' @ post'"
    using keyframes_replace[of pre' name post'] by blast
next
  assume "(\<forall>i<length pre'. matchAt supports_rx
            (drop i (pre' @ ''@supports ('' @ cond @ '') {'' @ post')) = None)
        \<and> cond \<noteq> [] \<and> (\<forall>c\<in>set cond. \<not> isLineTerminator c)
        \<and> (\<forall>k. 1 \<le> k \<and> k < length cond \<longrightarrow>
               \<not> startsWith (drop k (cond @ '') {'' @ post')) '') {'')"
  then show "replace supports_rx ''@media all {'' (pre' @ ''@supports ('' @ cond @ '') {'' @ post') =
            pre' @ ''@media all {'' @ post'"
    using supports_replace[of pre' cond post'] by blast
next
  show "\<not> str_includes (tweakRespec data) ''.innerText=''"
    "\<not> str_includes (tweakRespec data) ''body.innerText''"
    by (rule tweakRespec_no_innerText)+
qed

lemma download_patches_sample:
  "download (serve sampleBody) respecVersioned specReferrer = (Data tweakedBody, [respecUrl])
   \<and> download (serve sampleBody) localScript specReferrer =
       (Data sampleBody, [''http://s.test/specs/script.js''])
   \<and> replaceByGroup highlight_group highlight_tail profileSample = profileTweaked
   \<and> replace keyframes_rx ''@media all {'' ''a{@keyframes fade {}}'' = ''a{@media all {}}''
   \<and> replace supports_rx ''@media all {'' ''@supports (x:y) {}'' = ''@media all {}''"
proof -
  have a: "download (serve sampleBody) respecVersioned specReferrer = (Data tweakedBody, [respecUrl])"
    using download_patches[of respecVersioned specReferrer respecUrl "serve sampleBody" sampleBody,
            THEN conjunct1] getUrlToFetch_respecVersioned tweakRespec_sampleBody
    by (simp add: serve_def respecUrl_def)
  have b: "download (serve sampleBody) localScript specReferrer =
       (Data sampleBody, [''http://s.test/specs/script.js''])"
    using download_patches[of localScript specReferrer "''http://s.test/specs/script.js''"
            "serve sampleBody" sampleBody, THEN conjunct1] getUrlToFetch_localScript
    by (simp add: serve_def respecUrl_def)
  have c: "replaceByGroup highlight_group highlight_tail profileSample = profileTweaked"
    using download_patches[of _ _ _ _ _ "[]" "[]" "[]" "[]" depsSample "[]" postSample,
            THEN conjunct2, THEN conjunct2, THEN conjunct1] postSample_no_highlight
    by (simp add: profileSample_def profileTweaked_def profileName_def highlightName_def
          depsSample_def postSample_def)
  have d: "replace keyframes_rx ''@media all {'' ''a{@keyframes fade {}}'' = ''a{@media all {}}''"
    using download_patches[of _ _ _ _ _ _ _ _ _ _ _ _ "''a{''" "''fade''" "''}}''",
            THEN conjunct2, THEN conjunct2, THEN conjunct2, THEN conjunct1] keyframes_not_before
    by (simp add: less_Suc_eq numeral_2_eq_2 isSpace_def)
  have hk: "\<forall>k. 1 \<le> k \<and> k < length ''x:y'' \<longrightarrow>
      \<not> startsWith (drop k (''x:y'' @ '') {'' @ ''}'')) '') {''"
    by (auto simp: less_Suc_eq startsWith_def)
  have hl: "\<forall>c\<in>set ''x:y''. \<not> isLineTerminator c"
    by (simp add: isLineTerminator_def)
  have e: "replace supports_rx ''@media all {'' ''@supports (x:y) {}'' = ''@media all {}''"
    using download_patches[of _ _ _ _ _ _ _ _ _ _ _ _ "[]" _ "''}''" "''x:y''",
            THEN conjunct2, THEN conjunct2, THEN conjunct2, THEN conjunct2, THEN conjunct1]
      hk hl
    by simp
  show ?thesis using a b c d e by simp
qed

text \<open>
  Claim C7. Every time the pinned ReSpec is served, and only then, the fetched text is
  patched before it is handed over: the dependency "core/highlight" is removed from the
  definition of the profile, the first \<^verbatim>\<open>@keyframes\<close> and the first \<^verbatim>\<open>@supports\<close> rules
  become \<^verbatim>\<open>@media all {\<close>, and the two accesses to \<^verbatim>\<open>innerText\<close> become accesses to
  \<^verbatim>\<open>textContent\<close>. The comment of the code (util.js 133-135) says the same of the
  dependency: the module is removed because JSDOM has no \<^verbatim>\<open>URL.createObjectURL\<close>. The
  code misses one case. Its expression asks for at least one character of the list and a
  comma before the entry, so that when "core/highlight" is the first dependency of the
  list nothing is removed: the request for a versioned ReSpec is answered with the text
  fetched from the pinned URL, the dependency still in place.
\<close>

theorem download_highlight_first_kept:
  "getUrlToFetch respecVersioned specReferrer = Some respecUrl
   \<and> download (serve highlightFirst) respecVersioned specReferrer =
       (Data highlightFirst, [respecUrl])
   \<and> str_includes highlightFirst highlightName"
proof -
  have a: "download (serve highlightFirst) respecVersioned specReferrer =
       (Data highlightFirst, [respecUrl])"
    using getUrlToFetch_respecVersioned tweakRespec_highlightFirst by (simp add: download_def serve_def respecUrl_def)
  have b: "str_includes highlightFirst highlightName" by code_simp
  show ?thesis using a b getUrlToFetch_respecVersioned by simp
qed


end
